theory Spec2Isabelle
  imports Main "HOL-Library.Char_ord" "HOL-Library.List_Lexorder" "HOL-Library.Product_Lexorder"
    "HOL-Library.Multiset"
begin

section \<open>Characters and character classes\<close>

text \<open>
  A Python \<open>str\<close> is modelled as a \<open>string\<close>: a list of \<open>char\<close>, each \<open>char\<close> standing
  for the code point of the same number (0 to 255). On that range the classes of the
  \<open>re\<close> module for \<open>str\<close> patterns are: \<open>\d\<close> the ten ASCII digits, \<open>\s\<close> the characters
  for which \<open>str.isspace\<close> holds (9 to 13, 28 to 32, 133 and 160), and \<open>.\<close> every character
  but the line feed. Code points above 255 are not represented.
\<close>

definition code :: "char \<Rightarrow> nat" where
  "code c = of_char c"

definition is_digit :: "char \<Rightarrow> bool" where
  "is_digit c = (48 \<le> code c \<and> code c \<le> 57)"

definition is_space :: "char \<Rightarrow> bool" where
  "is_space c =
     ((9 \<le> code c \<and> code c \<le> 13) \<or> (28 \<le> code c \<and> code c \<le> 32)
      \<or> code c = 133 \<or> code c = 160)"

definition newline :: char where
  "newline = CHR 0x0A"

definition is_dot :: "char \<Rightarrow> bool" where
  "is_dot c = (c \<noteq> newline)"

section \<open>A backtracking matcher for the constructs of \<open>LINE_RE\<close>\<close>

datatype atom = Lit char | Digit | Space | Dot

fun accepts :: "atom \<Rightarrow> char \<Rightarrow> bool" where
  "accepts (Lit a) c = (c = a)"
| "accepts Digit c = is_digit c"
| "accepts Space c = is_space c"
| "accepts Dot c = is_dot c"

datatype rexp =
    Bol
  | Eol
  | One atom
  | Star atom
  | Plus atom
  | Rep nat atom
  | Seq rexp rexp
  | Alt rexp rexp
  | Grp string rexp

text \<open>
  A matcher state: the number of characters consumed so far, the rest of the subject
  string, and the groups captured so far.
\<close>

type_synonym mstate = "nat \<times> string \<times> (string \<times> string) list"

fun one :: "atom \<Rightarrow> mstate \<Rightarrow> mstate list" where
  "one a (p, [], g) = []"
| "one a (p, c # cs, g) = (if accepts a c then [(Suc p, cs, g)] else [])"

text \<open>Greedy repetition: the longest run is tried first, then each shorter one.\<close>

fun star :: "atom \<Rightarrow> mstate \<Rightarrow> mstate list" where
  "star a (p, [], g) = [(p, [], g)]"
| "star a (p, c # cs, g) =
     (if accepts a c then star a (Suc p, cs, g) else []) @ [(p, c # cs, g)]"

fun rep :: "nat \<Rightarrow> atom \<Rightarrow> mstate \<Rightarrow> mstate list" where
  "rep 0 a st = [st]"
| "rep (Suc n) a st = concat (map (rep n a) (one a st))"

text \<open>
  \<open>run r st\<close> lists, in the order a backtracking matcher tries them, the states in which
  a match of \<open>r\<close> started in \<open>st\<close> can end.
\<close>

fun run :: "rexp \<Rightarrow> mstate \<Rightarrow> mstate list" where
  "run Bol (p, s, g) = (if p = 0 then [(p, s, g)] else [])"
| "run Eol (p, s, g) = (if s = [] \<or> s = [newline] then [(p, s, g)] else [])"
| "run (One a) st = one a st"
| "run (Star a) st = star a st"
| "run (Plus a) st = concat (map (star a) (one a st))"
| "run (Rep n a) st = rep n a st"
| "run (Seq r1 r2) st = concat (map (run r2) (run r1 st))"
| "run (Alt r1 r2) st = run r1 st @ run r2 st"
| "run (Grp name r) (p, s, g) =
     map (\<lambda>(p', s', g'). (p', s', g' @ [(name, take (p' - p) s)])) (run r (p, s, g))"

text \<open>\<open>re.match\<close>: the first way to match at the start of the string, if there is one.\<close>

definition re_match :: "rexp \<Rightarrow> string \<Rightarrow> (string \<times> string) list option" where
  "re_match r s = (case run r (0, s, []) of [] \<Rightarrow> None | (p, s', g) # _ \<Rightarrow> Some g)"

text \<open>Concatenation of several patterns, and a literal word.\<close>

fun seqs :: "rexp list \<Rightarrow> rexp" where
  "seqs [] = Rep 0 Dot"
| "seqs [r] = r"
| "seqs (r # rs) = Seq r (seqs rs)"

definition lits :: "string \<Rightarrow> rexp" where
  "lits w = seqs (map (\<lambda>c. One (Lit c)) w)"

text \<open>
  The pattern of the source, construct by construct:
  \<^verbatim>\<open>^(?P<ts>\d{4}-\d{2}-\d{2} \d{2}:\d{2}:\d{2})\s+\[(?P<level>INFO|WARNING|ERROR)\]\s+(?P<msg>.*)$\<close>
\<close>

definition TS_RE :: rexp where
  "TS_RE =
     seqs [Rep 4 Digit, One (Lit CHR ''-''), Rep 2 Digit, One (Lit CHR ''-''), Rep 2 Digit,
           One (Lit CHR '' ''),
           Rep 2 Digit, One (Lit CHR '':''), Rep 2 Digit, One (Lit CHR '':''), Rep 2 Digit]"

definition LEVEL_RE :: rexp where
  "LEVEL_RE = Alt (lits ''INFO'') (Alt (lits ''WARNING'') (lits ''ERROR''))"

definition LINE_RE :: rexp where
  "LINE_RE =
     seqs [Bol, Grp ''ts'' TS_RE, Plus Space, One (Lit CHR ''[''), Grp ''level'' LEVEL_RE,
           One (Lit CHR '']''), Plus Space, Grp ''msg'' (Star Dot), Eol]"

section \<open>Timestamps\<close>

datatype py_error =
    FileNotFoundError | NotADirectoryError | IsADirectoryError | PermissionError | OSError
  | ValueError | TypeError

text \<open>
  A naive \<open>datetime\<close> of second precision. Python compares two of them field by field,
  from the year down to the second.
\<close>

record datetime =
  year :: nat
  month :: nat
  day :: nat
  hour :: nat
  minute :: nat
  second :: nat

definition dt_key :: "datetime \<Rightarrow> nat \<times> nat \<times> nat \<times> nat \<times> nat \<times> nat" where
  "dt_key t = (year t, month t, day t, hour t, minute t, second t)"

definition dt_less :: "datetime \<Rightarrow> datetime \<Rightarrow> bool" where
  "dt_less a b = (dt_key a < dt_key b)"

definition dt_le :: "datetime \<Rightarrow> datetime \<Rightarrow> bool" where
  "dt_le a b = (dt_key a \<le> dt_key b)"

definition digit_val :: "char \<Rightarrow> nat" where
  "digit_val c = code c - 48"

definition to_nat :: "string \<Rightarrow> nat" where
  "to_nat s = foldl (\<lambda>n c. 10 * n + digit_val c) 0 s"

definition is_leap :: "nat \<Rightarrow> bool" where
  "is_leap y = (y mod 4 = 0 \<and> (y mod 100 \<noteq> 0 \<or> y mod 400 = 0))"

definition days_in_month :: "nat \<Rightarrow> nat \<Rightarrow> nat" where
  "days_in_month y m =
     (if m = 2 then (if is_leap y then 29 else 28)
      else if m = 4 \<or> m = 6 \<or> m = 9 \<or> m = 11 then 30 else 31)"

text \<open>The character-level shape of the \<open>ts\<close> group: \<open>dddd-dd-dd dd:dd:dd\<close>.\<close>

definition ts_shape :: "string \<Rightarrow> bool" where
  "ts_shape s =
     (length s = 19
      \<and> list_all is_digit (take 4 s) \<and> s ! 4 = CHR ''-''
      \<and> list_all is_digit (take 2 (drop 5 s)) \<and> s ! 7 = CHR ''-''
      \<and> list_all is_digit (take 2 (drop 8 s)) \<and> s ! 10 = CHR '' ''
      \<and> list_all is_digit (take 2 (drop 11 s)) \<and> s ! 13 = CHR '':''
      \<and> list_all is_digit (take 2 (drop 14 s)) \<and> s ! 16 = CHR '':''
      \<and> list_all is_digit (take 2 (drop 17 s)))"

text \<open>
  \<open>datetime.strptime(s, TS_FORMAT)\<close> with \<open>TS_FORMAT = "%Y-%m-%d %H:%M:%S"\<close>, on the
  strings of the shape above, the only ones \<open>parse_line\<close> passes to it: the library
  raises \<open>ValueError\<close> unless the year is at least 1, the month is 1 to 12, the day exists
  in that month of that year, the hour is at most 23 and the minute and the second at
  most 59. On a string of another shape the model answers \<open>ValueError\<close> as well, which
  is not meant to describe the library there.
\<close>

definition strptime :: "string \<Rightarrow> py_error + datetime" where
  "strptime s =
     (if \<not> ts_shape s then Inl ValueError
      else
        let y = to_nat (take 4 s); m = to_nat (take 2 (drop 5 s));
            d = to_nat (take 2 (drop 8 s)); H = to_nat (take 2 (drop 11 s));
            M = to_nat (take 2 (drop 14 s)); S = to_nat (take 2 (drop 17 s))
        in if 1 \<le> y \<and> 1 \<le> m \<and> m \<le> 12 \<and> 1 \<le> d \<and> d \<le> days_in_month y m
              \<and> H \<le> 23 \<and> M \<le> 59 \<and> S \<le> 59
           then Inr \<lparr>year = y, month = m, day = d, hour = H, minute = M, second = S\<rparr>
           else Inl ValueError)"

section \<open>The line parser\<close>

definition rstrip_nl :: "string \<Rightarrow> string" where
  "rstrip_nl s = rev (dropWhile (\<lambda>c. c = newline) (rev s))"

definition LEVELS :: "string list" where
  "LEVELS = [''INFO'', ''WARNING'', ''ERROR'']"

text \<open>\<open>m.group(name)\<close>: the text of a group, when the group took part in the match.\<close>

definition group :: "(string \<times> string) list \<Rightarrow> string \<Rightarrow> string option" where
  "group m name = map_of m name"

definition parse_line :: "string \<Rightarrow> py_error + (datetime \<times> string) option" where
  "parse_line line =
     (case re_match LINE_RE (rstrip_nl line) of
        None \<Rightarrow> Inr None
      | Some m \<Rightarrow>
          (case group m ''ts'' of
             None \<Rightarrow> Inl TypeError
           | Some t \<Rightarrow>
               (case strptime t of
                  Inl e \<Rightarrow> Inl e
                | Inr ts \<Rightarrow>
                    (case group m ''level'' of
                       None \<Rightarrow> Inl TypeError
                     | Some level \<Rightarrow> Inr (Some (ts, level))))))"

section \<open>The summary\<close>

record summary =
  files_processed :: int
  lines_seen :: int
  lines_matched :: int
  lines_skipped :: int
  info :: int
  warning :: int
  error :: int
  earliest :: "datetime option"
  latest :: "datetime option"

definition Summary :: summary where
  "Summary =
     \<lparr>files_processed = 0, lines_seen = 0, lines_matched = 0, lines_skipped = 0,
      info = 0, warning = 0, error = 0, earliest = None, latest = None\<rparr>"

definition update_time_bounds :: "summary \<Rightarrow> datetime \<Rightarrow> summary" where
  "update_time_bounds s ts =
     (let s1 = (case earliest s of
                  None \<Rightarrow> s\<lparr>earliest := Some ts\<rparr>
                | Some e \<Rightarrow> if dt_less ts e then s\<lparr>earliest := Some ts\<rparr> else s)
      in case latest s1 of
           None \<Rightarrow> s1\<lparr>latest := Some ts\<rparr>
         | Some l \<Rightarrow> if dt_less l ts then s1\<lparr>latest := Some ts\<rparr> else s1)"

definition bump_level :: "summary \<Rightarrow> string \<Rightarrow> summary" where
  "bump_level s level =
     (if level = ''INFO'' then s\<lparr>info := info s + 1\<rparr>
      else if level = ''WARNING'' then s\<lparr>warning := warning s + 1\<rparr>
      else if level = ''ERROR'' then s\<lparr>error := error s + 1\<rparr>
      else s)"

section \<open>The file system and the file enumerator\<close>

text \<open>
  A path is the list of its components. The file system is a function from paths to what
  the scan finds there. A directory holds the names of its entries in the order the
  operating system lists them. A regular file is one that \<open>is_file\<close> reports when the
  directory is listed; it holds what opening it gives when the scan gets to it: its
  decoded text, or the error that \<open>open\<close> raises. So a file removed between the listing
  and its opening is a regular file that holds \<open>FileNotFoundError\<close>, and one that may not
  be read holds \<open>PermissionError\<close>. \<open>Special\<close> is anything else that exists, such as a
  socket. Listing a directory is taken to succeed.
\<close>

type_synonym path = "string list"

datatype node = Directory "string list" | RegularFile "py_error + string" | Special

type_synonym filesystem = "path \<Rightarrow> node option"

definition exists :: "filesystem \<Rightarrow> path \<Rightarrow> bool" where
  "exists fs p = (fs p \<noteq> None)"

definition is_dir :: "filesystem \<Rightarrow> path \<Rightarrow> bool" where
  "is_dir fs p = (case fs p of Some (Directory _) \<Rightarrow> True | _ \<Rightarrow> False)"

definition is_file :: "filesystem \<Rightarrow> path \<Rightarrow> bool" where
  "is_file fs p = (case fs p of Some (RegularFile _) \<Rightarrow> True | _ \<Rightarrow> False)"

definition iterdir :: "filesystem \<Rightarrow> path \<Rightarrow> path list" where
  "iterdir fs p = (case fs p of Some (Directory names) \<Rightarrow> map (\<lambda>n. p @ [n]) names | _ \<Rightarrow> [])"

definition name :: "path \<Rightarrow> string" where
  "name p = (if p = [] then [] else last p)"

text \<open>\<open>str.rfind\<close>: the index of the last occurrence of a character, or -1.\<close>

fun rfind :: "char \<Rightarrow> string \<Rightarrow> int" where
  "rfind c [] = - 1"
| "rfind c (x # xs) =
     (let r = rfind c xs in if 0 \<le> r then r + 1 else if x = c then 0 else - 1)"

text \<open>
  \<open>PurePath.suffix\<close>:
  \<^verbatim>\<open>i = name.rfind('.'); return name[i:] if 0 < i < len(name) - 1 else ''\<close>
\<close>

definition suffix :: "path \<Rightarrow> string" where
  "suffix p =
     (let i = rfind CHR ''.'' (name p)
      in if 0 < i \<and> i < int (length (name p)) - 1 then drop (nat i) (name p) else [])"

text \<open>
  Paths compare as the lists of their components, and the components as strings, by code
  point; \<open>sorted\<close> is a stable sort by that order.
\<close>

definition iter_log_files :: "filesystem \<Rightarrow> path \<Rightarrow> path list" where
  "iter_log_files fs directory =
     sort (filter (\<lambda>p. is_file fs p \<and> suffix p = ''.log'') (iterdir fs directory))"

section \<open>The aggregator\<close>

text \<open>
  \<open>log_path.open("r", ...)\<close>: the text of a regular file, or the error raised. A path
  with nothing behind it raises \<open>FileNotFoundError\<close>, a directory \<open>IsADirectoryError\<close>.
\<close>

definition open_text :: "filesystem \<Rightarrow> path \<Rightarrow> py_error + string" where
  "open_text fs p =
     (case fs p of
        None \<Rightarrow> Inl FileNotFoundError
      | Some (Directory _) \<Rightarrow> Inl IsADirectoryError
      | Some (RegularFile r) \<Rightarrow> r
      | Some Special \<Rightarrow> Inl OSError)"

text \<open>
  The file is read in text mode with universal newlines: a carriage return, alone or
  followed by a line feed, reads as one line feed. Iterating over the file yields its
  lines, each with its line feed; the last line has none when the text does not end with
  one.
\<close>

fun universal_newlines :: "string \<Rightarrow> string" where
  "universal_newlines [] = []"
| "universal_newlines [c] = (if c = CHR 0x0D then [newline] else [c])"
| "universal_newlines (c # d # cs) =
     (if c = CHR 0x0D
      then (if d = newline then newline # universal_newlines cs
            else newline # universal_newlines (d # cs))
      else c # universal_newlines (d # cs))"

fun split_lines :: "string \<Rightarrow> string \<Rightarrow> string list" where
  "split_lines cur [] = (if cur = [] then [] else [cur])"
| "split_lines cur (c # cs) =
     (if c = newline then (cur @ [c]) # split_lines [] cs else split_lines (cur @ [c]) cs)"

definition text_lines :: "string \<Rightarrow> string list" where
  "text_lines text = split_lines [] (universal_newlines text)"

fun scan_lines :: "summary \<Rightarrow> string list \<Rightarrow> py_error + summary" where
  "scan_lines s [] = Inr s"
| "scan_lines s (line # rest) =
     (let s1 = s\<lparr>lines_seen := lines_seen s + 1\<rparr>
      in case parse_line line of
           Inl e \<Rightarrow> Inl e
         | Inr None \<Rightarrow> scan_lines (s1\<lparr>lines_skipped := lines_skipped s1 + 1\<rparr>) rest
         | Inr (Some (ts, level)) \<Rightarrow>
             scan_lines
               (update_time_bounds (bump_level (s1\<lparr>lines_matched := lines_matched s1 + 1\<rparr>) level) ts)
               rest)"

text \<open>
  The loop over the files. Beside the result it returns the paths of the files it opened,
  in order, so that what a scan touches can be stated.
\<close>

fun scan_files :: "filesystem \<Rightarrow> summary \<Rightarrow> path list \<Rightarrow> path list \<times> (py_error + summary)" where
  "scan_files fs s [] = ([], Inr s)"
| "scan_files fs s (p # ps) =
     (let s1 = s\<lparr>files_processed := files_processed s + 1\<rparr>
      in case open_text fs p of
           Inl e \<Rightarrow> ([], Inl e)
         | Inr text \<Rightarrow>
             (case scan_lines s1 (text_lines text) of
                Inl e \<Rightarrow> ([p], Inl e)
              | Inr s2 \<Rightarrow> (case scan_files fs s2 ps of (opened, r) \<Rightarrow> (p # opened, r))))"

definition summarize_directory_io :: "filesystem \<Rightarrow> path \<Rightarrow> path list \<times> (py_error + summary)" where
  "summarize_directory_io fs directory =
     (if \<not> exists fs directory then ([], Inl FileNotFoundError)
      else if \<not> is_dir fs directory then ([], Inl NotADirectoryError)
      else scan_files fs Summary (iter_log_files fs directory))"

definition summarize_directory :: "filesystem \<Rightarrow> path \<Rightarrow> py_error + summary" where
  "summarize_directory fs directory = snd (summarize_directory_io fs directory)"

section \<open>The grammar of the specification\<close>



text \<open>
  One summary widens another when its bounds include the other's: where the first has an
  earliest timestamp, the second has one that is not later, and where the first has a
  latest timestamp, the second has one that is not earlier.
\<close>

definition widens :: "summary \<Rightarrow> summary \<Rightarrow> bool" where
  "widens a b =
     ((case earliest a of
         None \<Rightarrow> True
       | Some e \<Rightarrow> (case earliest b of None \<Rightarrow> False | Some e' \<Rightarrow> dt_le e' e))
      \<and> (case latest a of
           None \<Rightarrow> True
         | Some l \<Rightarrow> (case latest b of None \<Rightarrow> False | Some l' \<Rightarrow> dt_le l l')))"

section \<open>Example directories\<close>

definition example_fs :: filesystem where
  "example_fs =
     map_of
       [([''logs''], Directory [''b.log'', ''a.log'', ''.log'', ''notes.txt'', ''sub'']),
        ([''logs'', ''a.log''],
           RegularFile (Inr (''2026-02-06 13:45:01 [INFO] Something happened'' @ [newline]
                             @ ''Traceback (most recent call last):'' @ [newline]
                             @ ''2026-02-07 08:00:00 [WARNING] disk almost full''))),
        ([''logs'', ''b.log''],
           RegularFile (Inr (''2026-02-05 23:59:59 [ERROR] boom'' @ [newline, newline]))),
        ([''logs'', ''.log''], RegularFile (Inr ''2026-01-01 00:00:00 [INFO] hidden'')),
        ([''logs'', ''notes.txt''], RegularFile (Inr ''2026-01-01 00:00:00 [INFO] note'')),
        ([''logs'', ''sub''], Directory [''c.log'']),
        ([''logs'', ''sub'', ''c.log''], RegularFile (Inr []))]"

definition example_summary :: summary where
  "example_summary =
     \<lparr>files_processed = 2, lines_seen = 5, lines_matched = 3, lines_skipped = 2,
      info = 1, warning = 1, error = 1,
      earliest = Some \<lparr>year = 2026, month = 2, day = 5, hour = 23, minute = 59, second = 59\<rparr>,
      latest = Some \<lparr>year = 2026, month = 2, day = 7, hour = 8, minute = 0, second = 0\<rparr>\<rparr>"

text \<open>
  A directory with one log file of one line among entries that are none, a directory
  whose only file is named \<open>.log\<close>, and a directory with a file that is gone when the
  scan opens it.
\<close>

definition scenario_fs :: filesystem where
  "scenario_fs =
     map_of
       [([''logs''], Directory [''notes.txt'', ''app.log'', ''.log'', ''archive'']),
        ([''logs'', ''notes.txt''],
           RegularFile (Inr (''2026-01-01 00:00:00 [ERROR] not a log file'' @ [newline]))),
        ([''logs'', ''app.log''],
           RegularFile (Inr ''2026-02-06 13:45:01 [INFO] Something happened'')),
        ([''logs'', ''.log''], RegularFile (Inr ''2026-01-01 00:00:00 [WARNING] hidden'')),
        ([''logs'', ''archive''], Directory [''old.log'']),
        ([''logs'', ''archive'', ''old.log''],
           RegularFile (Inr ''2025-12-31 23:59:59 [ERROR] last year''))]"

definition dot_fs :: filesystem where
  "dot_fs =
     map_of
       [([''logs''], Directory [''.log'']),
        ([''logs'', ''.log''],
           RegularFile (Inr ''2026-02-06 13:45:01 [INFO] Something happened''))]"

definition gone_fs :: filesystem where
  "gone_fs =
     map_of
       [([''logs''], Directory [''gone.log'']),
        ([''logs'', ''gone.log''], RegularFile (Inl FileNotFoundError))]"

section \<open>What the matcher accepts\<close>

lemma in_one:
  "((p', s', g') \<in> set (one a (p, s, g))) = (\<exists>c. s = c # s' \<and> accepts a c \<and> p' = Suc p \<and> g' = g)"
  by (cases s) (simp_all, blast)

lemma star_self: "(p, s, g) \<in> set (star a (p, s, g))"
  by (cases s) simp_all

lemma star_complete:
  "list_all (accepts a) u \<Longrightarrow> (p + length u, s', g) \<in> set (star a (p, u @ s', g))"
proof (induction u arbitrary: p)
  case Nil
  show ?case by (simp add: star_self)
next
  case (Cons c u)
  have "(Suc p + length u, s', g) \<in> set (star a (Suc p, u @ s', g))"
    using Cons.IH [of "Suc p"] Cons.prems by simp
  then show ?case using Cons.prems by simp
qed

lemma star_sound:
  "(p', s', g') \<in> set (star a (p, s, g)) \<Longrightarrow>
     \<exists>u. s = u @ s' \<and> list_all (accepts a) u \<and> p' = p + length u \<and> g' = g"
proof (induction s arbitrary: p)
  case Nil
  then have "[] = [] @ s' \<and> list_all (accepts a) [] \<and> p' = p + length ([]::string) \<and> g' = g"
    by simp
  then show ?case by blast
next
  case (Cons c cs)
  then have "(accepts a c \<and> (p', s', g') \<in> set (star a (Suc p, cs, g))) \<or> (p', s', g') = (p, c # cs, g)"
    by (simp split: if_splits) blast
  then show ?case
  proof
    assume 1: "accepts a c \<and> (p', s', g') \<in> set (star a (Suc p, cs, g))"
    then obtain u where "cs = u @ s'" "list_all (accepts a) u" "p' = Suc p + length u" "g' = g"
      using Cons.IH by blast
    then have "c # cs = (c # u) @ s' \<and> list_all (accepts a) (c # u) \<and> p' = p + length (c # u) \<and> g' = g"
      using 1 by simp
    then show ?thesis by blast
  next
    assume "(p', s', g') = (p, c # cs, g)"
    then have "c # cs = [] @ s' \<and> list_all (accepts a) [] \<and> p' = p + length ([]::string) \<and> g' = g"
      by simp
    then show ?thesis by blast
  qed
qed

lemma in_star:
  "((p', s', g') \<in> set (star a (p, s, g))) =
     (\<exists>u. s = u @ s' \<and> list_all (accepts a) u \<and> p' = p + length u \<and> g' = g)"
  using star_sound star_complete by blast

lemma rep_complete:
  "list_all (accepts a) u \<Longrightarrow> (p + length u, s', g) \<in> set (rep (length u) a (p, u @ s', g))"
proof (induction u arbitrary: p)
  case Nil
  show ?case by simp
next
  case (Cons c u)
  have "(Suc p + length u, s', g) \<in> set (rep (length u) a (Suc p, u @ s', g))"
    using Cons.IH [of "Suc p"] Cons.prems by simp
  then show ?case using Cons.prems by simp
qed

lemma rep_sound:
  "(p', s', g') \<in> set (rep n a (p, s, g)) \<Longrightarrow>
     \<exists>u. s = u @ s' \<and> length u = n \<and> list_all (accepts a) u \<and> p' = p + n \<and> g' = g"
proof (induction n arbitrary: p s)
  case 0
  then have "s = [] @ s' \<and> length ([]::string) = 0 \<and> list_all (accepts a) [] \<and> p' = p + 0 \<and> g' = g"
    by simp
  then show ?case by blast
next
  case (Suc n)
  show ?case
  proof (cases s)
    case Nil
    then show ?thesis using Suc.prems by simp
  next
    case (Cons c cs)
    then have 1: "accepts a c" "(p', s', g') \<in> set (rep n a (Suc p, cs, g))"
      using Suc.prems by (simp_all split: if_splits)
    then obtain u where "cs = u @ s'" "length u = n" "list_all (accepts a) u" "p' = Suc p + n" "g' = g"
      using Suc.IH by blast
    then have "s = (c # u) @ s' \<and> length (c # u) = Suc n \<and> list_all (accepts a) (c # u) \<and> p' = p + Suc n \<and> g' = g"
      using 1 Cons by simp
    then show ?thesis by blast
  qed
qed

lemma in_rep:
  "((p', s', g') \<in> set (rep n a (p, s, g))) =
     (\<exists>u. s = u @ s' \<and> length u = n \<and> list_all (accepts a) u \<and> p' = p + n \<and> g' = g)"
  using rep_sound rep_complete by blast


lemma in_plus:
  "((p', s', g') \<in> set (run (Plus a) (p, s, g))) =
     (\<exists>u. s = u @ s' \<and> u \<noteq> [] \<and> list_all (accepts a) u \<and> p' = p + length u \<and> g' = g)"
proof
  assume "(p', s', g') \<in> set (run (Plus a) (p, s, g))"
  then obtain p1 s1 g1 where 1: "(p1, s1, g1) \<in> set (one a (p, s, g))" "(p', s', g') \<in> set (star a (p1, s1, g1))"
    by auto
  from 1(1) obtain c where c: "s = c # s1" "accepts a c" "p1 = Suc p" "g1 = g"
    unfolding in_one by blast
  from 1(2) obtain u where u: "s1 = u @ s'" "list_all (accepts a) u" "p' = p1 + length u" "g' = g1"
    unfolding in_star by blast
  have "s = (c # u) @ s' \<and> c # u \<noteq> [] \<and> list_all (accepts a) (c # u) \<and> p' = p + length (c # u) \<and> g' = g"
    using c u by simp
  then show "\<exists>u. s = u @ s' \<and> u \<noteq> [] \<and> list_all (accepts a) u \<and> p' = p + length u \<and> g' = g"
    by blast
next
  assume "\<exists>u. s = u @ s' \<and> u \<noteq> [] \<and> list_all (accepts a) u \<and> p' = p + length u \<and> g' = g"
  then obtain u where u: "s = u @ s'" "u \<noteq> []" "list_all (accepts a) u" "p' = p + length u" "g' = g"
    by blast
  then obtain c v where cv: "u = c # v" by (cases u) simp_all
  have "(Suc p + length v, s', g) \<in> set (star a (Suc p, v @ s', g))"
    using star_complete [of a v "Suc p" s' g] u(3) cv by simp
  then show "(p', s', g') \<in> set (run (Plus a) (p, s, g))"
    using u cv by simp
qed

lemma in_seq:
  "((p', s', g') \<in> set (run (Seq r1 r2) (p, s, g))) =
     (\<exists>p1 s1 g1. (p1, s1, g1) \<in> set (run r1 (p, s, g)) \<and> (p', s', g') \<in> set (run r2 (p1, s1, g1)))"
  by (simp add: Bex_def)

lemma run_consumes:
  "(p', s', g') \<in> set (run r (p, s, g)) \<Longrightarrow> \<exists>u. s = u @ s' \<and> p' = p + length u"
proof (induction r arbitrary: p s g p' s' g')
  case Bol
  then have "s = [] @ s' \<and> p' = p + length ([]::string)" by (simp split: if_splits)
  then show ?case by blast
next
  case Eol
  then have "s = [] @ s' \<and> p' = p + length ([]::string)" by (simp split: if_splits)
  then show ?case by blast
next
  case (One a)
  then obtain c where "s = c # s'" "p' = Suc p" by (simp add: in_one) blast
  then have "s = [c] @ s' \<and> p' = p + length [c]" by simp
  then show ?case by blast
next
  case (Star a)
  then show ?case by (simp add: in_star) blast
next
  case (Plus a)
  then show ?case unfolding in_plus by blast
next
  case (Rep n a)
  then show ?case by (simp add: in_rep) blast
next
  case (Seq r1 r2)
  then obtain p1 s1 g1 where m: "(p1, s1, g1) \<in> set (run r1 (p, s, g))" "(p', s', g') \<in> set (run r2 (p1, s1, g1))"
    unfolding in_seq by blast
  from Seq.IH(1)[OF m(1)] obtain u where u: "s = u @ s1" "p1 = p + length u" by blast
  from Seq.IH(2)[OF m(2)] obtain v where v: "s1 = v @ s'" "p' = p1 + length v" by blast
  have "s = (u @ v) @ s' \<and> p' = p + length (u @ v)" using u v by simp
  then show ?case by blast
next
  case (Alt r1 r2)
  then have "(p', s', g') \<in> set (run r1 (p, s, g)) \<or> (p', s', g') \<in> set (run r2 (p, s, g))" by simp
  then show ?case using Alt.IH by blast
next
  case (Grp n r)
  then obtain g0 where "(p', s', g0) \<in> set (run r (p, s, g))" by auto
  then show ?case using Grp.IH by blast
qed

lemma in_grp:
  "((p', s', g') \<in> set (run (Grp n r) (p, s, g))) =
     (\<exists>u g0. s = u @ s' \<and> p' = p + length u \<and> (p', s', g0) \<in> set (run r (p, s, g)) \<and> g' = g0 @ [(n, u)])"
proof
  assume "(p', s', g') \<in> set (run (Grp n r) (p, s, g))"
  then obtain g0 where g0: "(p', s', g0) \<in> set (run r (p, s, g))" "g' = g0 @ [(n, take (p' - p) s)]"
    by auto
  from run_consumes[OF g0(1)] obtain u where "s = u @ s'" "p' = p + length u" by blast
  then have "s = u @ s' \<and> p' = p + length u \<and> (p', s', g0) \<in> set (run r (p, s, g)) \<and> g' = g0 @ [(n, u)]"
    using g0 by simp
  then show "\<exists>u g0. s = u @ s' \<and> p' = p + length u \<and> (p', s', g0) \<in> set (run r (p, s, g)) \<and> g' = g0 @ [(n, u)]"
    by blast
next
  assume "\<exists>u g0. s = u @ s' \<and> p' = p + length u \<and> (p', s', g0) \<in> set (run r (p, s, g)) \<and> g' = g0 @ [(n, u)]"
  then obtain u g0 where a: "s = u @ s'" "p' = p + length u" "(p', s', g0) \<in> set (run r (p, s, g))" "g' = g0 @ [(n, u)]"
    by blast
  have "(p', s', g0 @ [(n, take (p' - p) s)]) \<in> (\<lambda>(p', s', g'). (p', s', g' @ [(n, take (p' - p) s)])) ` set (run r (p, s, g))"
    using a(3) by (rule rev_image_eqI) simp
  then show "(p', s', g') \<in> set (run (Grp n r) (p, s, g))"
    using a by simp
qed

lemma in_lits:
  "((p', s', g') \<in> set (run (lits w) (p, s, g))) = (s = w @ s' \<and> p' = p + length w \<and> g' = g)"
proof (induction w arbitrary: p s g rule: induct_list012)
  case 1
  show ?case by (simp add: lits_def) blast
next
  case (2 c)
  show ?case by (simp add: lits_def in_one)
next
  case (3 c d w)
  have eq: "lits (c # d # w) = Seq (One (Lit c)) (lits (d # w))"
    by (simp add: lits_def)
  show ?case
    unfolding eq in_seq by (simp add: in_one 3(2))
qed

lemma in_level:
  "((p', s', g') \<in> set (run LEVEL_RE (p, s, g))) =
     (\<exists>lvl. lvl \<in> set LEVELS \<and> s = lvl @ s' \<and> p' = p + length lvl \<and> g' = g)"
proof -
  have "((p', s', g') \<in> set (run LEVEL_RE (p, s, g))) =
     ((p', s', g') \<in> set (run (lits ''INFO'') (p, s, g))
      \<or> (p', s', g') \<in> set (run (lits ''WARNING'') (p, s, g))
      \<or> (p', s', g') \<in> set (run (lits ''ERROR'') (p, s, g)))"
    by (simp add: LEVEL_RE_def)
  also have "\<dots> = ((s = ''INFO'' @ s' \<and> p' = p + length ''INFO'' \<and> g' = g)
      \<or> (s = ''WARNING'' @ s' \<and> p' = p + length ''WARNING'' \<and> g' = g)
      \<or> (s = ''ERROR'' @ s' \<and> p' = p + length ''ERROR'' \<and> g' = g))"
    by (simp only: in_lits)
  also have "\<dots> = (\<exists>lvl. (lvl = ''INFO'' \<or> lvl = ''WARNING'' \<or> lvl = ''ERROR'') \<and> s = lvl @ s' \<and> p' = p + length lvl \<and> g' = g)"
    by blast
  also have "\<dots> = (\<exists>lvl. lvl \<in> set LEVELS \<and> s = lvl @ s' \<and> p' = p + length lvl \<and> g' = g)"
    by (simp add: LEVELS_def)
  finally show ?thesis .
qed

lemma length_19:
  assumes "length (t::'a list) = 19"
  shows "\<exists>c0 c1 c2 c3 c4 c5 c6 c7 c8 c9 c10 c11 c12 c13 c14 c15 c16 c17 c18.
     t = [c0, c1, c2, c3, c4, c5, c6, c7, c8, c9, c10, c11, c12, c13, c14, c15, c16, c17, c18]"
proof -
  have "length t = Suc (Suc (Suc (Suc (Suc (Suc (Suc (Suc (Suc (Suc (Suc (Suc (Suc (Suc (Suc (Suc (Suc (Suc (Suc 0))))))))))))))))))"
    using assms by simp
  then show ?thesis
    by (simp only: length_Suc_conv length_0_conv) blast
qed

lemma ts_shape_cases:
  "ts_shape t =
     (\<exists>y1 y2 y3 y4 m1 m2 d1 d2 H1 H2 M1 M2 S1 S2.
        t = [y1, y2, y3, y4, CHR ''-'', m1, m2, CHR ''-'', d1, d2, CHR '' '',
             H1, H2, CHR '':'', M1, M2, CHR '':'', S1, S2]
        \<and> is_digit y1 \<and> is_digit y2 \<and> is_digit y3 \<and> is_digit y4
        \<and> is_digit m1 \<and> is_digit m2 \<and> is_digit d1 \<and> is_digit d2
        \<and> is_digit H1 \<and> is_digit H2 \<and> is_digit M1 \<and> is_digit M2
        \<and> is_digit S1 \<and> is_digit S2)"
proof
  assume a: "ts_shape t"
  then have "length t = 19" by (simp add: ts_shape_def)
  from length_19 [OF this] obtain y1 y2 y3 y4 c4 m1 m2 c7 d1 d2 c10 H1 H2 c13 M1 M2 c16 S1 S2 where
    t: "t = [y1, y2, y3, y4, c4, m1, m2, c7, d1, d2, c10, H1, H2, c13, M1, M2, c16, S1, S2]"
    by (elim exE) (rule that)
  show "\<exists>y1 y2 y3 y4 m1 m2 d1 d2 H1 H2 M1 M2 S1 S2.
        t = [y1, y2, y3, y4, CHR ''-'', m1, m2, CHR ''-'', d1, d2, CHR '' '',
             H1, H2, CHR '':'', M1, M2, CHR '':'', S1, S2]
        \<and> is_digit y1 \<and> is_digit y2 \<and> is_digit y3 \<and> is_digit y4
        \<and> is_digit m1 \<and> is_digit m2 \<and> is_digit d1 \<and> is_digit d2
        \<and> is_digit H1 \<and> is_digit H2 \<and> is_digit M1 \<and> is_digit M2
        \<and> is_digit S1 \<and> is_digit S2"
    using a unfolding t ts_shape_def by (simp add: eval_nat_numeral)
next
  assume "\<exists>y1 y2 y3 y4 m1 m2 d1 d2 H1 H2 M1 M2 S1 S2.
        t = [y1, y2, y3, y4, CHR ''-'', m1, m2, CHR ''-'', d1, d2, CHR '' '',
             H1, H2, CHR '':'', M1, M2, CHR '':'', S1, S2]
        \<and> is_digit y1 \<and> is_digit y2 \<and> is_digit y3 \<and> is_digit y4
        \<and> is_digit m1 \<and> is_digit m2 \<and> is_digit d1 \<and> is_digit d2
        \<and> is_digit H1 \<and> is_digit H2 \<and> is_digit M1 \<and> is_digit M2
        \<and> is_digit S1 \<and> is_digit S2"
  then obtain y1 y2 y3 y4 m1 m2 d1 d2 H1 H2 M1 M2 S1 S2 where
    "t = [y1, y2, y3, y4, CHR ''-'', m1, m2, CHR ''-'', d1, d2, CHR '' '',
             H1, H2, CHR '':'', M1, M2, CHR '':'', S1, S2]"
    "is_digit y1" "is_digit y2" "is_digit y3" "is_digit y4"
    "is_digit m1" "is_digit m2" "is_digit d1" "is_digit d2"
    "is_digit H1" "is_digit H2" "is_digit M1" "is_digit M2" "is_digit S1" "is_digit S2"
    by blast
  then show "ts_shape t"
    unfolding ts_shape_def by (simp add: eval_nat_numeral)
qed

lemma ts_complete:
  assumes "ts_shape t"
  shows "(p + 19, s', g) \<in> set (run TS_RE (p, t @ s', g))"
proof -
  from assms obtain y1 y2 y3 y4 m1 m2 d1 d2 H1 H2 M1 M2 S1 S2 where
    "t = [y1, y2, y3, y4, CHR ''-'', m1, m2, CHR ''-'', d1, d2, CHR '' '',
             H1, H2, CHR '':'', M1, M2, CHR '':'', S1, S2]"
    "is_digit y1" "is_digit y2" "is_digit y3" "is_digit y4"
    "is_digit m1" "is_digit m2" "is_digit d1" "is_digit d2"
    "is_digit H1" "is_digit H2" "is_digit M1" "is_digit M2" "is_digit S1" "is_digit S2"
    unfolding ts_shape_cases by blast
  then show ?thesis
    by (simp add: TS_RE_def eval_nat_numeral)
qed

lemma ts_sound:
  assumes "(p', s', g') \<in> set (run TS_RE (p, s, g))"
  shows "\<exists>t. s = t @ s' \<and> ts_shape t \<and> p' = p + 19 \<and> g' = g"
  using assms
  unfolding TS_RE_def seqs.simps in_seq run.simps(3,6) in_rep in_one
  apply (elim exE conjE)
  apply (simp add: eval_nat_numeral length_Suc_conv)
  apply (elim exE conjE)
  apply (simp add: ts_shape_cases)
  done

lemma in_ts:
  "((p', s', g') \<in> set (run TS_RE (p, s, g))) =
     (\<exists>t. s = t @ s' \<and> ts_shape t \<and> p' = p + 19 \<and> g' = g)"
  using ts_sound ts_complete by blast

lemma ts_shape_length: "ts_shape t \<Longrightarrow> length t = 19"
  by (simp add: ts_shape_def)

lemma accepts_class: "accepts Dot = is_dot" "accepts Space = is_space" "accepts Digit = is_digit"
  by (rule ext, simp)+

lemma in_grp_ts:
  "((p', s', g') \<in> set (run (Grp ''ts'' TS_RE) (p, s, g))) =
     (\<exists>t. s = t @ s' \<and> ts_shape t \<and> p' = p + length t \<and> g' = g @ [(''ts'', t)])"
  unfolding in_grp in_ts by (auto simp: ts_shape_length)

lemma in_grp_level:
  "((p', s', g') \<in> set (run (Grp ''level'' LEVEL_RE) (p, s, g))) =
     (\<exists>lvl. lvl \<in> set LEVELS \<and> s = lvl @ s' \<and> p' = p + length lvl \<and> g' = g @ [(''level'', lvl)])"
  unfolding in_grp in_level by auto

lemma in_grp_msg:
  "((p', s', g') \<in> set (run (Grp ''msg'' (Star Dot)) (p, s, g))) =
     (\<exists>m. s = m @ s' \<and> list_all is_dot m \<and> p' = p + length m \<and> g' = g @ [(''msg'', m)])"
  unfolding in_grp run.simps(4) in_star accepts_class by auto

lemma in_eol:
  "((p', s', g') \<in> set (run Eol (p, s, g))) =
     (s' = s \<and> (s = [] \<or> s = [newline]) \<and> p' = p \<and> g' = g)"
  by auto

lemma in_bol:
  "((p', s', g') \<in> set (run Bol (p, s, g))) = (s' = s \<and> p = 0 \<and> p' = p \<and> g' = g)"
  by auto

lemma in_one_lit:
  "((p', s', g') \<in> set (run (One (Lit c)) (p, s, g))) = (s = c # s' \<and> p' = Suc p \<and> g' = g)"
  by (simp add: in_one)

lemma in_plus_space:
  "((p', s', g') \<in> set (run (Plus Space) (p, s, g))) =
     (\<exists>u. s = u @ s' \<and> u \<noteq> [] \<and> list_all is_space u \<and> p' = p + length u \<and> g' = g)"
  unfolding in_plus accepts_class ..


lemma line_sound:
  assumes "(p', s', g') \<in> set (run LINE_RE (p, s, g))"
  shows "\<exists>t w1 lvl w2 msg.
        s = t @ w1 @ ''['' @ lvl @ '']'' @ w2 @ msg @ s'
        \<and> ts_shape t \<and> w1 \<noteq> [] \<and> list_all is_space w1 \<and> lvl \<in> set LEVELS
        \<and> w2 \<noteq> [] \<and> list_all is_space w2 \<and> list_all is_dot msg
        \<and> (s' = [] \<or> s' = [newline])
        \<and> p = 0
        \<and> g' = g @ [(''ts'', t), (''level'', lvl), (''msg'', msg)]"
proof -
  from assms obtain p1 s1 g1 p2 s2 g2 p3 s3 g3 p4 s4 g4 p5 s5 g5 p6 s6 g6 p7 s7 g7 p8 s8 g8 where
    c1: "(p1, s1, g1) \<in> set (run Bol (p, s, g))" and
    c2: "(p2, s2, g2) \<in> set (run (Grp ''ts'' TS_RE) (p1, s1, g1))" and
    c3: "(p3, s3, g3) \<in> set (run (Plus Space) (p2, s2, g2))" and
    c4: "(p4, s4, g4) \<in> set (run (One (Lit CHR ''['')) (p3, s3, g3))" and
    c5: "(p5, s5, g5) \<in> set (run (Grp ''level'' LEVEL_RE) (p4, s4, g4))" and
    c6: "(p6, s6, g6) \<in> set (run (One (Lit CHR '']'')) (p5, s5, g5))" and
    c7: "(p7, s7, g7) \<in> set (run (Plus Space) (p6, s6, g6))" and
    c8: "(p8, s8, g8) \<in> set (run (Grp ''msg'' (Star Dot)) (p7, s7, g7))" and
    c9: "(p', s', g') \<in> set (run Eol (p8, s8, g8))"
    unfolding LINE_RE_def seqs.simps in_seq by (elim exE conjE) (rule that; assumption)
  from c1 have 1: "s1 = s" "p = 0" "g1 = g" unfolding in_bol by simp_all
  from c2 obtain t where 2: "s1 = t @ s2" "ts_shape t" "g2 = g1 @ [(''ts'', t)]"
    unfolding in_grp_ts by blast
  from c3 obtain w1 where 3: "s2 = w1 @ s3" "w1 \<noteq> []" "list_all is_space w1" "g3 = g2"
    unfolding in_plus_space by blast
  from c4 have 4: "s3 = CHR ''['' # s4" "g4 = g3" unfolding in_one_lit by simp_all
  from c5 obtain lvl where 5: "lvl \<in> set LEVELS" "s4 = lvl @ s5" "g5 = g4 @ [(''level'', lvl)]"
    unfolding in_grp_level by blast
  from c6 have 6: "s5 = CHR '']'' # s6" "g6 = g5" unfolding in_one_lit by simp_all
  from c7 obtain w2 where 7: "s6 = w2 @ s7" "w2 \<noteq> []" "list_all is_space w2" "g7 = g6"
    unfolding in_plus_space by blast
  from c8 obtain msg where 8: "s7 = msg @ s8" "list_all is_dot msg" "g8 = g7 @ [(''msg'', msg)]"
    unfolding in_grp_msg by blast
  from c9 have 9: "s' = s8" "s8 = [] \<or> s8 = [newline]" "g' = g8" unfolding in_eol by simp_all
  have "s = t @ w1 @ ''['' @ lvl @ '']'' @ w2 @ msg @ s'
        \<and> ts_shape t \<and> w1 \<noteq> [] \<and> list_all is_space w1 \<and> lvl \<in> set LEVELS
        \<and> w2 \<noteq> [] \<and> list_all is_space w2 \<and> list_all is_dot msg
        \<and> (s' = [] \<or> s' = [newline])
        \<and> p = 0
        \<and> g' = g @ [(''ts'', t), (''level'', lvl), (''msg'', msg)]"
    using 1 2 3 4 5 6 7 8 9 by simp
  then show ?thesis by blast
qed


section \<open>What the line parser returns\<close>

lemma re_match_Some:
  "re_match r s = Some m \<Longrightarrow> \<exists>p' s'. (p', s', m) \<in> set (run r (0, s, []))"
  by (auto simp: re_match_def split: list.splits)






lemma rstrip_nl_no_newline: "rstrip_nl s \<noteq> u @ [newline]"
proof
  assume "rstrip_nl s = u @ [newline]"
  then have "dropWhile (\<lambda>c. c = newline) (rev s) = newline # rev u"
    by (metis rev.simps(2) rev_rev_ident rev_swap rstrip_nl_def)
  then show False
    by (metis (mono_tags, lifting) dropWhile_eq_Cons_conv)
qed

lemma parse_line_Some:
  assumes "parse_line line = Inr (Some (dt, lvl))"
  shows "\<exists>t w1 w2 msg.
        rstrip_nl line = t @ w1 @ ''['' @ lvl @ '']'' @ w2 @ msg
        \<and> strptime t = Inr dt \<and> w1 \<noteq> [] \<and> list_all is_space w1 \<and> lvl \<in> set LEVELS
        \<and> w2 \<noteq> [] \<and> list_all is_space w2 \<and> list_all is_dot msg"
proof -
  from assms obtain m t0 where m: "re_match LINE_RE (rstrip_nl line) = Some m"
    "group m ''ts'' = Some t0" "strptime t0 = Inr dt" "group m ''level'' = Some lvl"
    by (auto simp: parse_line_def split: option.splits sum.splits)
  from re_match_Some [OF m(1)] obtain p' s' where "(p', s', m) \<in> set (run LINE_RE (0, rstrip_nl line, []))"
    by blast
  from line_sound [OF this] obtain t w1 lvl' w2 msg where d:
    "rstrip_nl line = t @ w1 @ ''['' @ lvl' @ '']'' @ w2 @ msg @ s'"
    "ts_shape t" "w1 \<noteq> []" "list_all is_space w1" "lvl' \<in> set LEVELS"
    "w2 \<noteq> []" "list_all is_space w2" "list_all is_dot msg" "s' = [] \<or> s' = [newline]"
    "m = [] @ [(''ts'', t), (''level'', lvl'), (''msg'', msg)]"
    by blast
  have "s' = []"
  proof (rule ccontr)
    assume "s' \<noteq> []"
    then have "rstrip_nl line = (t @ w1 @ ''['' @ lvl' @ '']'' @ w2 @ msg) @ [newline]"
      using d(1,9) by simp
    then show False using rstrip_nl_no_newline by blast
  qed
  moreover have "t0 = t" "lvl = lvl'" using m(2,4) d(10) by (simp_all add: group_def)
  ultimately have "rstrip_nl line = t @ w1 @ ''['' @ lvl @ '']'' @ w2 @ msg
        \<and> strptime t = Inr dt \<and> w1 \<noteq> [] \<and> list_all is_space w1 \<and> lvl \<in> set LEVELS
        \<and> w2 \<noteq> [] \<and> list_all is_space w2 \<and> list_all is_dot msg"
    using d m(3) by simp
  then show ?thesis by blast
qed



lemma parse_line_level:
  "parse_line line = Inr (Some (dt, lvl)) \<Longrightarrow> lvl \<in> set LEVELS"
  using parse_line_Some by blast

section \<open>Properties of the summary's methods\<close>

text \<open>
  C10. \<open>bump_level\<close> with a string that is none of \<open>INFO\<close>, \<open>WARNING\<close>, \<open>ERROR\<close> does
  nothing: the summary it returns is the summary it was given, in every field. The
  method has no branch that raises.
\<close>

theorem bump_level_other_noop:
  "level \<noteq> ''INFO'' \<Longrightarrow> level \<noteq> ''WARNING'' \<Longrightarrow> level \<noteq> ''ERROR'' \<Longrightarrow> bump_level s level = s"
  by (simp add: bump_level_def)

theorem bump_level_other_noop_witness:
  "''DEBUG'' \<noteq> ''INFO'' \<and> ''DEBUG'' \<noteq> ''WARNING'' \<and> ''DEBUG'' \<noteq> ''ERROR''
   \<and> bump_level Summary ''DEBUG'' = Summary"
  using bump_level_other_noop [of "''DEBUG''" Summary] by simp

section \<open>Properties of the line parser\<close>

text \<open>
  C1. A line of the right shape whose timestamp is no calendar date does not give the
  no-match result: \<open>strptime\<close> raises \<open>ValueError\<close> and \<open>parse_line\<close> lets it through.
  Here with month 13 and with day 32.
\<close>

theorem parse_line_impossible_date_raises:
  "parse_line ''2026-13-01 00:00:00 [INFO] x'' = Inl ValueError
   \<and> parse_line ''2026-01-32 00:00:00 [ERROR] y'' = Inl ValueError"
  by code_simp







section \<open>Properties of the scan\<close>

lemma strptime_error: "strptime t = Inl e \<Longrightarrow> e = ValueError"
  unfolding strptime_def Let_def by (metis Inl_inject sum.distinct(1))

lemma parse_line_error:
  assumes "parse_line line = Inl e"
  shows "e = ValueError"
proof -
  from assms obtain m where m: "re_match LINE_RE (rstrip_nl line) = Some m"
    by (auto simp: parse_line_def split: option.splits)
  from re_match_Some [OF m] obtain p' s' where "(p', s', m) \<in> set (run LINE_RE (0, rstrip_nl line, []))"
    by blast
  from line_sound [OF this] obtain t lvl msg where
    "m = [] @ [(''ts'', t), (''level'', lvl), (''msg'', msg)]"
    by blast
  then have "group m ''ts'' = Some t" "group m ''level'' = Some lvl"
    by (simp_all add: group_def)
  then show ?thesis
    using assms m by (auto simp: parse_line_def split: sum.splits dest: strptime_error)
qed

lemma scan_lines_error: "scan_lines s ls = Inl e \<Longrightarrow> e = ValueError"
proof (induction ls arbitrary: s)
  case Nil
  then show ?case by simp
next
  case (Cons l ls)
  then show ?case
    by (auto simp: Let_def split: sum.splits option.splits prod.splits dest: parse_line_error)
qed

lemma scan_files_Cons:
  "scan_files fs s (q # ps) =
     (case open_text fs q of
        Inl e \<Rightarrow> ([], Inl e)
      | Inr text \<Rightarrow>
          (case scan_lines (s\<lparr>files_processed := files_processed s + 1\<rparr>) (text_lines text) of
             Inl e \<Rightarrow> ([q], Inl e)
           | Inr s2 \<Rightarrow> (case scan_files fs s2 ps of (opened, r) \<Rightarrow> (q # opened, r))))"
  by (simp add: Let_def)

lemma scan_files_Cons_Inr:
  assumes "scan_files fs s (q # ps) = (opened, Inr s')"
  shows "\<exists>text s2 opened2. open_text fs q = Inr text
     \<and> scan_lines (s\<lparr>files_processed := files_processed s + 1\<rparr>) (text_lines text) = Inr s2
     \<and> scan_files fs s2 ps = (opened2, Inr s')"
  using assms unfolding scan_files_Cons
  by (auto split: sum.splits prod.splits)

lemma scan_files_error:
  "scan_files fs s ps = (opened, Inl e) \<Longrightarrow>
     e = ValueError \<or> (\<exists>p\<in>set ps. open_text fs p = Inl e)"
proof (induction ps arbitrary: s opened)
  case Nil
  then show ?case by simp
next
  case (Cons q ps)
  show ?case
  proof (cases "open_text fs q")
    case (Inl e')
    then have "e' = e" using Cons.prems by (simp add: scan_files_Cons)
    then show ?thesis using Inl by simp
  next
    case (Inr content)
    show ?thesis
    proof (cases "scan_lines (s\<lparr>files_processed := files_processed s + 1\<rparr>) (text_lines content)")
      case (Inl e')
      then have "e' = e" using Cons.prems Inr by (simp add: scan_files_Cons)
      then show ?thesis using Inl scan_lines_error by blast
    next
      case s2: (Inr s2)
      obtain opened2 r where r: "scan_files fs s2 ps = (opened2, r)"
        by (cases "scan_files fs s2 ps")
      then have "r = Inl e" using Cons.prems Inr s2 by (simp add: scan_files_Cons)
      then show ?thesis using Cons.IH r by fastforce
    qed
  qed
qed

lemma update_time_bounds_counts:
  "files_processed (update_time_bounds s ts) = files_processed s"
  "lines_seen (update_time_bounds s ts) = lines_seen s"
  "lines_matched (update_time_bounds s ts) = lines_matched s"
  "lines_skipped (update_time_bounds s ts) = lines_skipped s"
  "info (update_time_bounds s ts) = info s"
  "warning (update_time_bounds s ts) = warning s"
  "error (update_time_bounds s ts) = error s"
  by (simp_all add: update_time_bounds_def Let_def split: option.splits)

lemma bump_level_counts:
  "files_processed (bump_level s lvl) = files_processed s"
  "lines_seen (bump_level s lvl) = lines_seen s"
  "lines_matched (bump_level s lvl) = lines_matched s"
  "lines_skipped (bump_level s lvl) = lines_skipped s"
  "earliest (bump_level s lvl) = earliest s"
  "latest (bump_level s lvl) = latest s"
  by (simp_all add: bump_level_def)

lemma bump_level_sum:
  "lvl \<in> set LEVELS \<Longrightarrow>
     info (bump_level s lvl) + warning (bump_level s lvl) + error (bump_level s lvl)
       = info s + warning s + error s + 1"
  by (auto simp: bump_level_def LEVELS_def)

lemma scan_lines_counts:
  "scan_lines s ls = Inr s' \<Longrightarrow>
     lines_seen s = lines_matched s + lines_skipped s \<Longrightarrow>
     lines_matched s = info s + warning s + error s \<Longrightarrow>
     lines_seen s' = lines_matched s' + lines_skipped s'
     \<and> lines_matched s' = info s' + warning s' + error s'"
proof (induction ls arbitrary: s)
  case Nil
  then show ?case by simp
next
  case (Cons l ls)
  show ?case
  proof (cases "parse_line l")
    case (Inl e)
    then show ?thesis using Cons.prems by simp
  next
    case (Inr r)
    show ?thesis
    proof (cases r)
      case None
      then show ?thesis
        using Inr Cons.prems by (intro Cons.IH [of "s\<lparr>lines_seen := lines_seen s + 1, lines_skipped := lines_skipped s + 1\<rparr>"]) (simp_all add: Let_def)
    next
      case (Some tl)
      obtain ts lvl where tl: "tl = (ts, lvl)" by (cases tl)
      then have "lvl \<in> set LEVELS" using Inr Some parse_line_level by blast
      then show ?thesis
        using Inr Some tl Cons.prems
        by (intro Cons.IH [of "update_time_bounds (bump_level (s\<lparr>lines_seen := lines_seen s + 1, lines_matched := lines_matched s + 1\<rparr>) lvl) ts"])
           (simp_all add: update_time_bounds_counts bump_level_counts bump_level_sum)
    qed
  qed
qed

lemma scan_files_counts:
  "scan_files fs s ps = (opened, Inr s') \<Longrightarrow>
     lines_seen s = lines_matched s + lines_skipped s \<Longrightarrow>
     lines_matched s = info s + warning s + error s \<Longrightarrow>
     lines_seen s' = lines_matched s' + lines_skipped s'
     \<and> lines_matched s' = info s' + warning s' + error s'"
proof (induction ps arbitrary: s opened)
  case Nil
  then show ?case by simp
next
  case (Cons p ps)
  from scan_files_Cons_Inr [OF Cons.prems(1)] obtain content s2 opened2 where
    a: "open_text fs p = Inr content"
       "scan_lines (s\<lparr>files_processed := files_processed s + 1\<rparr>) (text_lines content) = Inr s2"
       "scan_files fs s2 ps = (opened2, Inr s')"
    by blast
  from scan_lines_counts [OF a(2)] Cons.prems(2,3)
  have "lines_seen s2 = lines_matched s2 + lines_skipped s2 \<and> lines_matched s2 = info s2 + warning s2 + error s2"
    by simp
  then show ?case using Cons.IH [OF a(3)] by blast
qed

lemma example_scan:
  "summarize_directory_io example_fs [''logs''] =
     ([[''logs'', ''a.log''], [''logs'', ''b.log'']],
      Inr example_summary)"
  by code_simp

text \<open>
  C2. Whenever \<open>summarize_directory\<close> returns a summary, \<open>lines_seen\<close> is the sum of
  \<open>lines_matched\<close> and \<open>lines_skipped\<close>, and \<open>lines_matched\<close> is the sum of \<open>info\<close>,
  \<open>warning\<close> and \<open>error\<close>. No assumption is made about the directory: it may list no
  file, or files without lines.
\<close>

theorem summarize_directory_counts:
  "summarize_directory fs directory = Inr s \<Longrightarrow>
     lines_seen s = lines_matched s + lines_skipped s
     \<and> lines_matched s = info s + warning s + error s"
proof -
  assume "summarize_directory fs directory = Inr s"
  then obtain opened where "scan_files fs Summary (iter_log_files fs directory) = (opened, Inr s)"
    by (cases "scan_files fs Summary (iter_log_files fs directory)")
       (auto simp: summarize_directory_def summarize_directory_io_def split: if_splits)
  from scan_files_counts [OF this] show ?thesis by (simp add: Summary_def)
qed

theorem summarize_directory_counts_witness:
  "summarize_directory example_fs [''logs''] = Inr example_summary
   \<and> lines_seen example_summary = lines_matched example_summary + lines_skipped example_summary
   \<and> lines_matched example_summary
       = info example_summary + warning example_summary + error example_summary"
proof -
  have h: "summarize_directory example_fs [''logs''] = Inr example_summary"
    by (simp add: summarize_directory_def example_scan)
  from summarize_directory_counts [OF h] h show ?thesis by simp
qed

lemma example_files:
  "iter_log_files example_fs [''logs''] = [[''logs'', ''a.log''], [''logs'', ''b.log'']]"
  by code_simp

lemma is_dir_exists: "is_dir fs p \<Longrightarrow> exists fs p"
  by (auto simp: is_dir_def exists_def split: option.splits)

lemma iter_log_files_is_file: "p \<in> set (iter_log_files fs directory) \<Longrightarrow> is_file fs p"
  by (simp add: iter_log_files_def)

lemma open_text_is_file: "is_file fs p \<Longrightarrow> fs p = Some (RegularFile (open_text fs p))"
  by (auto simp: is_file_def open_text_def split: option.splits node.splits)

lemma summarize_directory_error:
  assumes "summarize_directory fs directory = Inl e" "is_dir fs directory"
  shows "e = ValueError \<or> (\<exists>p\<in>set (iter_log_files fs directory). fs p = Some (RegularFile (Inl e)))"
proof -
  obtain opened where "scan_files fs Summary (iter_log_files fs directory) = (opened, Inl e)"
    using assms is_dir_exists [OF assms(2)]
    by (cases "scan_files fs Summary (iter_log_files fs directory)")
       (simp add: summarize_directory_def summarize_directory_io_def)
  from scan_files_error [OF this] show ?thesis
  proof
    assume "e = ValueError"
    then show ?thesis by simp
  next
    assume "\<exists>p\<in>set (iter_log_files fs directory). open_text fs p = Inl e"
    then obtain p where p: "p \<in> set (iter_log_files fs directory)" "open_text fs p = Inl e"
      by blast
    then have "fs p = Some (RegularFile (Inl e))"
      using open_text_is_file [OF iter_log_files_is_file [OF p(1)]] by simp
    then show ?thesis using p(1) by blast
  qed
qed

text \<open>
  C4, as amended. \<open>summarize_directory\<close> raises \<open>FileNotFoundError\<close> when the path does
  not exist and \<open>NotADirectoryError\<close> when the path exists and is not a directory; in
  both cases no file has been opened and no summary is returned. On a directory whose
  listing succeeds, an error of the scan is the \<open>ValueError\<close> of a line or the error
  raised by opening one of the enumerated files. So the two errors are raised exactly in
  the two cases as long as opening no enumerated file raises one of them.
\<close>

theorem summarize_directory_invalid_root:
  "(\<not> exists fs directory \<longrightarrow> summarize_directory_io fs directory = ([], Inl FileNotFoundError))
   \<and> (exists fs directory \<and> \<not> is_dir fs directory
        \<longrightarrow> summarize_directory_io fs directory = ([], Inl NotADirectoryError))
   \<and> (summarize_directory fs directory = Inl e \<and> is_dir fs directory
        \<longrightarrow> e = ValueError
            \<or> (\<exists>p\<in>set (iter_log_files fs directory). fs p = Some (RegularFile (Inl e))))
   \<and> ((\<forall>p\<in>set (iter_log_files fs directory).
          fs p \<noteq> Some (RegularFile (Inl FileNotFoundError))
          \<and> fs p \<noteq> Some (RegularFile (Inl NotADirectoryError)))
        \<longrightarrow> (summarize_directory fs directory = Inl FileNotFoundError) = (\<not> exists fs directory)
            \<and> (summarize_directory fs directory = Inl NotADirectoryError)
                = (exists fs directory \<and> \<not> is_dir fs directory))"
proof (intro conjI impI)
  assume "\<not> exists fs directory"
  then show "summarize_directory_io fs directory = ([], Inl FileNotFoundError)"
    by (simp add: summarize_directory_io_def)
next
  assume "exists fs directory \<and> \<not> is_dir fs directory"
  then show "summarize_directory_io fs directory = ([], Inl NotADirectoryError)"
    by (simp add: summarize_directory_io_def)
next
  assume "summarize_directory fs directory = Inl e \<and> is_dir fs directory"
  then show "e = ValueError
     \<or> (\<exists>p\<in>set (iter_log_files fs directory). fs p = Some (RegularFile (Inl e)))"
    using summarize_directory_error by blast
next
  assume a: "\<forall>p\<in>set (iter_log_files fs directory).
          fs p \<noteq> Some (RegularFile (Inl FileNotFoundError))
          \<and> fs p \<noteq> Some (RegularFile (Inl NotADirectoryError))"
  show "(summarize_directory fs directory = Inl FileNotFoundError) = (\<not> exists fs directory)"
  proof (cases "is_dir fs directory")
    case True
    then have "summarize_directory fs directory \<noteq> Inl FileNotFoundError"
      using summarize_directory_error [of fs directory FileNotFoundError] a by auto
    then show ?thesis using is_dir_exists [OF True] by simp
  next
    case False
    then show ?thesis by (simp add: summarize_directory_def summarize_directory_io_def)
  qed
  show "(summarize_directory fs directory = Inl NotADirectoryError)
      = (exists fs directory \<and> \<not> is_dir fs directory)"
  proof (cases "is_dir fs directory")
    case True
    then have "summarize_directory fs directory \<noteq> Inl NotADirectoryError"
      using summarize_directory_error [of fs directory NotADirectoryError] a by auto
    then show ?thesis using True by simp
  next
    case False
    then show ?thesis by (simp add: summarize_directory_def summarize_directory_io_def)
  qed
qed

theorem summarize_directory_invalid_root_witness:
  "\<not> exists example_fs [''missing'']
   \<and> summarize_directory_io example_fs [''missing''] = ([], Inl FileNotFoundError)
   \<and> exists example_fs [''logs'', ''a.log''] \<and> \<not> is_dir example_fs [''logs'', ''a.log'']
   \<and> summarize_directory_io example_fs [''logs'', ''a.log''] = ([], Inl NotADirectoryError)
   \<and> summarize_directory gone_fs [''logs''] = Inl FileNotFoundError \<and> is_dir gone_fs [''logs'']
   \<and> (FileNotFoundError = ValueError
        \<or> (\<exists>p\<in>set (iter_log_files gone_fs [''logs'']).
              gone_fs p = Some (RegularFile (Inl FileNotFoundError))))
   \<and> iter_log_files example_fs [''logs''] = [[''logs'', ''a.log''], [''logs'', ''b.log'']]
   \<and> example_fs [''logs'', ''a.log''] \<noteq> Some (RegularFile (Inl FileNotFoundError))
   \<and> example_fs [''logs'', ''a.log''] \<noteq> Some (RegularFile (Inl NotADirectoryError))
   \<and> example_fs [''logs'', ''b.log''] \<noteq> Some (RegularFile (Inl FileNotFoundError))
   \<and> example_fs [''logs'', ''b.log''] \<noteq> Some (RegularFile (Inl NotADirectoryError))
   \<and> exists example_fs [''logs'']
   \<and> summarize_directory example_fs [''logs''] \<noteq> Inl FileNotFoundError
   \<and> summarize_directory example_fs [''logs''] \<noteq> Inl NotADirectoryError"
proof -
  have h6: "example_fs [''logs'', ''a.log''] \<noteq> Some (RegularFile (Inl FileNotFoundError))"
    "example_fs [''logs'', ''a.log''] \<noteq> Some (RegularFile (Inl NotADirectoryError))"
    "example_fs [''logs'', ''b.log''] \<noteq> Some (RegularFile (Inl FileNotFoundError))"
    "example_fs [''logs'', ''b.log''] \<noteq> Some (RegularFile (Inl NotADirectoryError))"
    by (simp_all add: example_fs_def)
  have h1: "\<not> exists example_fs [''missing'']"
    and h2: "exists example_fs [''logs'', ''a.log''] \<and> \<not> is_dir example_fs [''logs'', ''a.log'']"
    and h5: "exists example_fs [''logs'']" "is_dir example_fs [''logs'']"
    by (simp_all add: exists_def is_dir_def example_fs_def)
  have h3: "summarize_directory gone_fs [''logs''] = Inl FileNotFoundError \<and> is_dir gone_fs [''logs'']"
    by code_simp
  have h4: "\<forall>p\<in>set (iter_log_files example_fs [''logs'']).
          example_fs p \<noteq> Some (RegularFile (Inl FileNotFoundError))
          \<and> example_fs p \<noteq> Some (RegularFile (Inl NotADirectoryError))"
    by (simp add: example_files example_fs_def)
  note t1 = summarize_directory_invalid_root [of example_fs "[''missing'']", THEN conjunct1, rule_format, OF h1]
  note t2 = summarize_directory_invalid_root
              [of example_fs "[''logs'', ''a.log'']", THEN conjunct2, THEN conjunct1, rule_format, OF h2]
  note t3 = summarize_directory_invalid_root
              [of gone_fs "[''logs'']" FileNotFoundError, THEN conjunct2, THEN conjunct2, THEN conjunct1,
               rule_format, OF h3]
  note t4 = summarize_directory_invalid_root
              [of example_fs "[''logs'']", THEN conjunct2, THEN conjunct2, THEN conjunct2,
               THEN mp, OF h4]
  from t4 h5 have t5: "summarize_directory example_fs [''logs''] \<noteq> Inl FileNotFoundError"
    "summarize_directory example_fs [''logs''] \<noteq> Inl NotADirectoryError"
    by simp_all
  from h1 t1 h2 t2 h3 t3 example_files h6 h5(1) t5 show ?thesis by blast
qed

text \<open>
  The claim as stated fails in one direction: the directory exists, a file listed in it
  is gone when the scan opens it, and the scan raises \<open>FileNotFoundError\<close>.
\<close>

theorem summarize_directory_file_gone_counterexample:
  "exists gone_fs [''logs''] \<and> is_dir gone_fs [''logs'']
   \<and> gone_fs [''logs'', ''gone.log''] = Some (RegularFile (Inl FileNotFoundError))
   \<and> summarize_directory gone_fs [''logs''] = Inl FileNotFoundError"
  by code_simp

text \<open>The order of timestamps.\<close>

lemma dt_le_refl: "dt_le a a"
  by (simp add: dt_le_def)

lemma dt_less_imp_le: "dt_less a b \<Longrightarrow> dt_le a b"
  unfolding dt_less_def dt_le_def by (rule less_imp_le)

lemma dt_not_less_imp_le: "\<not> dt_less a b \<Longrightarrow> dt_le b a"
  unfolding dt_less_def dt_le_def by (rule leI)

lemma dt_le_trans: "dt_le a b \<Longrightarrow> dt_le b c \<Longrightarrow> dt_le a c"
  unfolding dt_le_def by (rule order_trans)

lemma dt_less_le_trans: "dt_less a b \<Longrightarrow> dt_le b c \<Longrightarrow> dt_less a c"
  unfolding dt_less_def dt_le_def by (rule less_le_trans)

lemma dt_le_less_asym: "dt_le a b \<Longrightarrow> dt_less b a \<Longrightarrow> False"
  unfolding dt_less_def dt_le_def by simp

lemma update_time_bounds_earliest:
  "earliest (update_time_bounds s ts) =
     Some (case earliest s of None \<Rightarrow> ts | Some e \<Rightarrow> if dt_less ts e then ts else e)"
  by (simp add: update_time_bounds_def Let_def split: option.splits)

lemma update_time_bounds_latest:
  "latest (update_time_bounds s ts) =
     Some (case latest s of None \<Rightarrow> ts | Some l \<Rightarrow> if dt_less l ts then ts else l)"
  by (simp add: update_time_bounds_def Let_def split: option.splits)

lemma widens_refl: "widens s s"
  by (simp add: widens_def dt_le_refl split: option.splits)

lemma widens_trans: "widens a b \<Longrightarrow> widens b c \<Longrightarrow> widens a c"
  unfolding widens_def by (auto split: option.splits intro: dt_le_trans)

lemma widens_update_time_bounds: "widens s (update_time_bounds s ts)"
  unfolding widens_def update_time_bounds_earliest update_time_bounds_latest
  by (auto split: option.splits intro: dt_le_refl dt_less_imp_le)

lemma widens_same_bounds: "earliest b = earliest a \<Longrightarrow> latest b = latest a \<Longrightarrow> widens a b"
  by (simp add: widens_def dt_le_refl split: option.splits)

text \<open>An invariant of the loops is proved by showing that each update keeps it.\<close>

lemma scan_lines_invariant:
  assumes "scan_lines s ls = Inr s'" and "P s"
    and skip: "\<And>s. P s \<Longrightarrow> P (s\<lparr>lines_seen := lines_seen s + 1, lines_skipped := lines_skipped s + 1\<rparr>)"
    and match: "\<And>s ts lvl. P s \<Longrightarrow> lvl \<in> set LEVELS \<Longrightarrow>
       P (update_time_bounds (bump_level (s\<lparr>lines_seen := lines_seen s + 1, lines_matched := lines_matched s + 1\<rparr>) lvl) ts)"
  shows "P s'"
  using assms(1,2)
proof (induction ls arbitrary: s)
  case Nil
  then show ?case by simp
next
  case (Cons l ls)
  show ?case
  proof (cases "parse_line l")
    case (Inl e)
    then show ?thesis using Cons.prems by simp
  next
    case (Inr r)
    show ?thesis
    proof (cases r)
      case None
      have "scan_lines (s\<lparr>lines_seen := lines_seen s + 1, lines_skipped := lines_skipped s + 1\<rparr>) ls = Inr s'"
        using Inr None Cons.prems(1) by (simp add: Let_def)
      then show ?thesis using Cons.IH skip [OF Cons.prems(2)] by blast
    next
      case (Some tl)
      obtain ts lvl where tl: "tl = (ts, lvl)" by (cases tl)
      then have lvl: "lvl \<in> set LEVELS" using Inr Some parse_line_level by blast
      have "scan_lines (update_time_bounds (bump_level (s\<lparr>lines_seen := lines_seen s + 1, lines_matched := lines_matched s + 1\<rparr>) lvl) ts) ls = Inr s'"
        using Inr Some tl Cons.prems(1) by (simp add: Let_def)
      then show ?thesis using Cons.IH match [OF Cons.prems(2) lvl] by blast
    qed
  qed
qed

lemma scan_files_invariant:
  assumes "scan_files fs s ps = (opened, Inr s')" and "P s"
    and newfile: "\<And>s. P s \<Longrightarrow> P (s\<lparr>files_processed := files_processed s + 1\<rparr>)"
    and skip: "\<And>s. P s \<Longrightarrow> P (s\<lparr>lines_seen := lines_seen s + 1, lines_skipped := lines_skipped s + 1\<rparr>)"
    and match: "\<And>s ts lvl. P s \<Longrightarrow> lvl \<in> set LEVELS \<Longrightarrow>
       P (update_time_bounds (bump_level (s\<lparr>lines_seen := lines_seen s + 1, lines_matched := lines_matched s + 1\<rparr>) lvl) ts)"
  shows "P s'"
  using assms(1,2)
proof (induction ps arbitrary: s opened)
  case Nil
  then show ?case by simp
next
  case (Cons p ps)
  from scan_files_Cons_Inr [OF Cons.prems(1)] obtain content s2 opened2 where
    a: "open_text fs p = Inr content"
       "scan_lines (s\<lparr>files_processed := files_processed s + 1\<rparr>) (text_lines content) = Inr s2"
       "scan_files fs s2 ps = (opened2, Inr s')"
    by blast
  have "P s2"
    using scan_lines_invariant [where P = P, OF a(2) newfile [OF Cons.prems(2)]] skip match by blast
  then show ?case using Cons.IH [OF a(3)] by blast
qed

lemma bounds_match_step:
  assumes "0 \<le> lines_matched s"
    "(earliest s = None) = (lines_matched s = 0)"
    "(latest s = None) = (lines_matched s = 0)"
    "\<forall>e l. earliest s = Some e \<longrightarrow> latest s = Some l \<longrightarrow> dt_le e l"
    and s'_def: "s' = update_time_bounds (bump_level (s\<lparr>lines_seen := lines_seen s + 1, lines_matched := lines_matched s + 1\<rparr>) lvl) ts"
  shows "0 \<le> lines_matched s' \<and> (earliest s' = None) = (lines_matched s' = 0)
     \<and> (latest s' = None) = (lines_matched s' = 0)
     \<and> (\<forall>e l. earliest s' = Some e \<longrightarrow> latest s' = Some l \<longrightarrow> dt_le e l)"
proof -
  have m: "lines_matched s' = lines_matched s + 1"
    by (simp add: s'_def update_time_bounds_counts bump_level_counts)
  have e: "earliest s' = Some (case earliest s of None \<Rightarrow> ts | Some e \<Rightarrow> if dt_less ts e then ts else e)"
    by (simp add: s'_def update_time_bounds_earliest bump_level_counts)
  have l: "latest s' = Some (case latest s of None \<Rightarrow> ts | Some l \<Rightarrow> if dt_less l ts then ts else l)"
    by (simp add: s'_def update_time_bounds_latest bump_level_counts)
  have "dt_le (case earliest s of None \<Rightarrow> ts | Some e \<Rightarrow> if dt_less ts e then ts else e)
              (case latest s of None \<Rightarrow> ts | Some l \<Rightarrow> if dt_less l ts then ts else l)"
  proof (cases "earliest s")
    case None
    then have "latest s = None" using assms(2,3) by simp
    then show ?thesis using None by (simp add: dt_le_refl)
  next
    case (Some e0)
    then obtain l0 where l0: "latest s = Some l0" using assms(2,3) by (cases "latest s") auto
    then have "dt_le e0 l0" using Some assms(4) by blast
    then show ?thesis
      using Some l0
      by (auto simp: dt_le_refl intro: dt_not_less_imp_le dt_less_imp_le dt_less_le_trans)
  qed
  then show ?thesis using m e l assms(1) by simp
qed

text \<open>
  C3. In every summary that \<open>summarize_directory\<close> returns, \<open>earliest\<close> and \<open>latest\<close>
  are both absent exactly when \<open>lines_matched\<close> is 0, one is absent exactly when the
  other is, and when both are present \<open>earliest\<close> is not after \<open>latest\<close>. A matched
  record only widens the bounds: \<open>update_time_bounds\<close> never moves \<open>earliest\<close> later
  nor \<open>latest\<close> earlier, and so it is from any summary during the scan to the summary
  after the remaining lines and after the remaining files.
\<close>

theorem summarize_directory_bounds:
  "(summarize_directory fs directory = Inr s \<longrightarrow>
      ((earliest s = None \<and> latest s = None) = (lines_matched s = 0))
      \<and> ((earliest s = None) = (latest s = None))
      \<and> (\<forall>e l. earliest s = Some e \<and> latest s = Some l \<longrightarrow> dt_le e l))
   \<and> widens s0 (update_time_bounds s0 ts)
   \<and> (scan_lines s0 ls = Inr s1 \<longrightarrow> widens s0 s1)
   \<and> (scan_files fs s0 ps = (opened, Inr s2) \<longrightarrow> widens s0 s2)"
proof (intro conjI impI)
  assume "summarize_directory fs directory = Inr s"
  then obtain op where sf: "scan_files fs Summary (iter_log_files fs directory) = (op, Inr s)"
    by (cases "scan_files fs Summary (iter_log_files fs directory)")
       (auto simp: summarize_directory_def summarize_directory_io_def split: if_splits)
  let ?P = "\<lambda>s::summary. 0 \<le> lines_matched s \<and> (earliest s = None) = (lines_matched s = 0)
     \<and> (latest s = None) = (lines_matched s = 0)
     \<and> (\<forall>e l. earliest s = Some e \<longrightarrow> latest s = Some l \<longrightarrow> dt_le e l)"
  have "?P s"
  proof (rule scan_files_invariant [where P = ?P, OF sf])
    show "?P Summary" by (simp add: Summary_def)
  next
    fix s assume "?P s"
    then show "?P (s\<lparr>files_processed := files_processed s + 1\<rparr>)" by simp
  next
    fix s assume "?P s"
    then show "?P (s\<lparr>lines_seen := lines_seen s + 1, lines_skipped := lines_skipped s + 1\<rparr>)" by simp
  next
    fix s :: summary and ts lvl assume "?P s"
    then have 1: "0 \<le> lines_matched s" and 2: "(earliest s = None) = (lines_matched s = 0)"
      and 3: "(latest s = None) = (lines_matched s = 0)"
      and 4: "\<forall>e l. earliest s = Some e \<longrightarrow> latest s = Some l \<longrightarrow> dt_le e l"
      by blast+
    show "?P (update_time_bounds (bump_level (s\<lparr>lines_seen := lines_seen s + 1, lines_matched := lines_matched s + 1\<rparr>) lvl) ts)"
      by (rule bounds_match_step [OF 1 2 3 4 refl])
  qed
  then show "(earliest s = None \<and> latest s = None) = (lines_matched s = 0)"
    "(earliest s = None) = (latest s = None)"
    "\<forall>e l. earliest s = Some e \<and> latest s = Some l \<longrightarrow> dt_le e l"
    by blast+
next
  show "widens s0 (update_time_bounds s0 ts)" by (rule widens_update_time_bounds)
next
  assume sl: "scan_lines s0 ls = Inr s1"
  show "widens s0 s1"
  proof (rule scan_lines_invariant [where P = "widens s0", OF sl])
    show "widens s0 s0" by (rule widens_refl)
  next
    fix s assume "widens s0 s"
    then show "widens s0 (s\<lparr>lines_seen := lines_seen s + 1, lines_skipped := lines_skipped s + 1\<rparr>)"
      by (rule widens_trans) (simp add: widens_same_bounds)
  next
    fix s ts lvl assume a: "widens s0 s"
    have "widens s (bump_level (s\<lparr>lines_seen := lines_seen s + 1, lines_matched := lines_matched s + 1\<rparr>) lvl)"
      by (simp add: widens_same_bounds bump_level_counts)
    then show "widens s0 (update_time_bounds (bump_level (s\<lparr>lines_seen := lines_seen s + 1, lines_matched := lines_matched s + 1\<rparr>) lvl) ts)"
      using a widens_trans widens_update_time_bounds by blast
  qed
next
  assume sf: "scan_files fs s0 ps = (opened, Inr s2)"
  show "widens s0 s2"
  proof (rule scan_files_invariant [where P = "widens s0", OF sf])
    show "widens s0 s0" by (rule widens_refl)
  next
    fix s assume "widens s0 s"
    then show "widens s0 (s\<lparr>files_processed := files_processed s + 1\<rparr>)"
      by (rule widens_trans) (simp add: widens_same_bounds)
  next
    fix s assume "widens s0 s"
    then show "widens s0 (s\<lparr>lines_seen := lines_seen s + 1, lines_skipped := lines_skipped s + 1\<rparr>)"
      by (rule widens_trans) (simp add: widens_same_bounds)
  next
    fix s ts lvl assume a: "widens s0 s"
    have "widens s (bump_level (s\<lparr>lines_seen := lines_seen s + 1, lines_matched := lines_matched s + 1\<rparr>) lvl)"
      by (simp add: widens_same_bounds bump_level_counts)
    then show "widens s0 (update_time_bounds (bump_level (s\<lparr>lines_seen := lines_seen s + 1, lines_matched := lines_matched s + 1\<rparr>) lvl) ts)"
      using a widens_trans widens_update_time_bounds by blast
  qed
qed

theorem summarize_directory_bounds_witness:
  "summarize_directory example_fs [''logs''] = Inr example_summary
   \<and> earliest example_summary
       = Some \<lparr>year = 2026, month = 2, day = 5, hour = 23, minute = 59, second = 59\<rparr>
   \<and> latest example_summary
       = Some \<lparr>year = 2026, month = 2, day = 7, hour = 8, minute = 0, second = 0\<rparr>
   \<and> lines_matched example_summary \<noteq> 0
   \<and> dt_le \<lparr>year = 2026, month = 2, day = 5, hour = 23, minute = 59, second = 59\<rparr>
            \<lparr>year = 2026, month = 2, day = 7, hour = 8, minute = 0, second = 0\<rparr>
   \<and> scan_lines Summary [''no log line''] = Inr (Summary\<lparr>lines_seen := 1, lines_skipped := 1\<rparr>)
   \<and> widens Summary (Summary\<lparr>lines_seen := 1, lines_skipped := 1\<rparr>)
   \<and> scan_files example_fs Summary [] = ([], Inr Summary)
   \<and> widens Summary Summary"
proof -
  have h: "summarize_directory example_fs [''logs''] = Inr example_summary"
    by (simp add: summarize_directory_def example_scan)
  have p: "parse_line ''no log line'' = Inr None"
    by code_simp
  have l: "scan_lines Summary [''no log line''] = Inr (Summary\<lparr>lines_seen := 1, lines_skipped := 1\<rparr>)"
    by (simp add: p Summary_def)
  have f: "scan_files example_fs Summary [] = ([], Inr Summary)"
    by simp
  from summarize_directory_bounds
         [of example_fs "[''logs'']" example_summary Summary _
             "[''no log line'']" "Summary\<lparr>lines_seen := 1, lines_skipped := 1\<rparr>" "[]" "[]" Summary]
       h l f
  show ?thesis by (simp add: example_summary_def)
qed


section \<open>Properties of the file enumerator\<close>

lemma rfind_bounds: "- 1 \<le> rfind c s \<and> rfind c s < int (length s)"
  by (induction s) (auto simp: Let_def)

lemma rfind_append:
  "rfind c (x @ y) = (if 0 \<le> rfind c y then int (length x) + rfind c y else rfind c x)"
  using rfind_bounds [of c y] by (induction x) (auto simp: Let_def)

lemma name_child: "name (d @ [n]) = n"
  by (simp add: name_def)

lemma suffix_log_iff:
  "(suffix p = ''.log'') = (\<exists>x. x \<noteq> [] \<and> name p = x @ ''.log'')"
proof
  assume a: "suffix p = ''.log''"
  let ?i = "rfind CHR ''.'' (name p)"
  from a have i: "0 < ?i" "?i < int (length (name p)) - 1" "drop (nat ?i) (name p) = ''.log''"
    by (simp_all add: suffix_def Let_def split: if_splits)
  then have "take (nat ?i) (name p) \<noteq> []" by auto
  moreover have "name p = take (nat ?i) (name p) @ ''.log''"
    using i(3) append_take_drop_id [of "nat ?i" "name p"] by simp
  ultimately show "\<exists>x. x \<noteq> [] \<and> name p = x @ ''.log''" by blast
next
  assume "\<exists>x. x \<noteq> [] \<and> name p = x @ ''.log''"
  then obtain x where x: "x \<noteq> []" "name p = x @ ''.log''" by blast
  have "rfind CHR ''.'' (x @ ''.log'') = int (length x)"
    by (simp add: rfind_append Let_def)
  then show "suffix p = ''.log''"
    using x by (simp add: suffix_def Let_def)
qed

lemma iter_log_files_set:
  "fs directory = Some (Directory names) \<Longrightarrow>
     set (iter_log_files fs directory) =
       {directory @ [n] |n. n \<in> set names \<and> is_file fs (directory @ [n])
                           \<and> (\<exists>x. x \<noteq> [] \<and> n = x @ ''.log'')}"
  by (auto simp: iter_log_files_def iterdir_def suffix_log_iff name_child)

text \<open>
  C5, as amended. For a directory, \<open>iter_log_files\<close> returns exactly the paths of its
  direct entries that are regular files and whose name is \<open>.log\<close> after at least one
  other character; the comparison is case-sensitive. The paths come sorted in ascending
  order, each once when the listing has no duplicates. Nothing below a subdirectory is
  returned, and a file named exactly \<open>.log\<close> is not: \<open>Path.suffix\<close> of such a name is
  empty.
\<close>

theorem iter_log_files_contract:
  "fs directory = Some (Directory names) \<Longrightarrow>
     set (iter_log_files fs directory) =
       {directory @ [n] |n. n \<in> set names \<and> is_file fs (directory @ [n])
                           \<and> (\<exists>x. x \<noteq> [] \<and> n = x @ ''.log'')}
     \<and> sorted (iter_log_files fs directory)
     \<and> (distinct names \<longrightarrow> distinct (iter_log_files fs directory))"
proof (intro conjI impI)
  assume d: "fs directory = Some (Directory names)"
  then show "set (iter_log_files fs directory) =
       {directory @ [n] |n. n \<in> set names \<and> is_file fs (directory @ [n])
                           \<and> (\<exists>x. x \<noteq> [] \<and> n = x @ ''.log'')}"
    by (rule iter_log_files_set)
  show "sorted (iter_log_files fs directory)"
    by (simp add: iter_log_files_def)
  assume "distinct names"
  then have "distinct (map (\<lambda>n. directory @ [n]) names)"
    by (simp add: distinct_map inj_on_def)
  then show "distinct (iter_log_files fs directory)"
    using d by (simp add: iter_log_files_def iterdir_def)
qed

theorem iter_log_files_contract_witness:
  "example_fs [''logs''] = Some (Directory [''b.log'', ''a.log'', ''.log'', ''notes.txt'', ''sub''])
   \<and> distinct [''b.log'', ''a.log'', ''.log'', ''notes.txt'', ''sub'']
   \<and> iter_log_files example_fs [''logs''] = [[''logs'', ''a.log''], [''logs'', ''b.log'']]
   \<and> set [[''logs'', ''a.log''], [''logs'', ''b.log'']] =
       {[''logs''] @ [n] |n. n \<in> set [''b.log'', ''a.log'', ''.log'', ''notes.txt'', ''sub'']
                            \<and> is_file example_fs ([''logs''] @ [n])
                            \<and> (\<exists>x. x \<noteq> [] \<and> n = x @ ''.log'')}
   \<and> sorted [[''logs'', ''a.log''], [''logs'', ''b.log'']]
   \<and> distinct [[''logs'', ''a.log''], [''logs'', ''b.log'']]"
proof -
  have h: "example_fs [''logs''] = Some (Directory [''b.log'', ''a.log'', ''.log'', ''notes.txt'', ''sub''])"
    by (simp add: example_fs_def)
  have d: "distinct [''b.log'', ''a.log'', ''.log'', ''notes.txt'', ''sub'']"
    by simp
  have e: "iter_log_files example_fs [''logs''] = [[''logs'', ''a.log''], [''logs'', ''b.log'']]"
    by code_simp
  from iter_log_files_contract [of example_fs "[''logs'']", OF h] h d e show ?thesis by simp
qed

text \<open>
  The claim as stated fails on the entry \<open>.log\<close> of the example directory: a regular
  file, a direct entry, with a name ending in \<open>.log\<close>, and not returned.
\<close>

theorem iter_log_files_dot_log_counterexample:
  "example_fs [''logs''] = Some (Directory [''b.log'', ''a.log'', ''.log'', ''notes.txt'', ''sub''])
   \<and> is_file example_fs [''logs'', ''.log'']
   \<and> [''logs'', ''.log''] \<notin> set (iter_log_files example_fs [''logs''])"
proof -
  have "iter_log_files example_fs [''logs''] = [[''logs'', ''a.log''], [''logs'', ''b.log'']]"
    by code_simp
  then show ?thesis by (simp add: example_fs_def is_file_def)
qed

section \<open>The order of the lines of a file\<close>

lemma dt_key_inj: "dt_key a = dt_key b \<Longrightarrow> a = b"
  by (cases a, cases b) (simp add: dt_key_def)

lemma dt_key_lower: "dt_key (if dt_less x y then x else y) = min (dt_key x) (dt_key y)"
proof (cases "dt_key x < dt_key y")
  case True
  then show ?thesis using less_imp_le [OF True] by (simp add: dt_less_def min_absorb1)
next
  case False
  then have "dt_key y \<le> dt_key x" by (simp add: not_less)
  then show ?thesis using False by (simp add: dt_less_def min_absorb2)
qed

lemma dt_key_upper: "dt_key (if dt_less y x then x else y) = max (dt_key x) (dt_key y)"
proof (cases "dt_key y < dt_key x")
  case True
  then show ?thesis using less_imp_le [OF True] by (simp add: dt_less_def max_absorb1)
next
  case False
  then have "dt_key x \<le> dt_key y" by (simp add: not_less)
  then show ?thesis using False by (simp add: dt_less_def max_absorb2)
qed

lemma lower_comm:
  "(if dt_less b (if dt_less a e then a else e) then b else (if dt_less a e then a else e))
   = (if dt_less a (if dt_less b e then b else e) then a else (if dt_less b e then b else e))"
  by (rule dt_key_inj) (simp only: dt_key_lower min.left_commute)

lemma upper_comm:
  "(if dt_less (if dt_less e a then a else e) b then b else (if dt_less e a then a else e))
   = (if dt_less (if dt_less e b then b else e) a then a else (if dt_less e b then b else e))"
  by (rule dt_key_inj) (simp only: dt_key_upper max.left_commute)

lemma first_lower_comm:
  "(if dt_less b a then b else a) = (if dt_less a b then a else b)"
  by (rule dt_key_inj) (simp only: dt_key_lower min.commute)

lemma first_upper_comm:
  "(if dt_less a b then b else a) = (if dt_less b a then a else b)"
  by (rule dt_key_inj) (simp only: dt_key_upper max.commute)


lemma matched_eq:
  "update_time_bounds (bump_level (s\<lparr>lines_seen := lines_seen s + 1, lines_matched := lines_matched s + 1\<rparr>) lvl) ts
   = s\<lparr>lines_seen := lines_seen s + 1, lines_matched := lines_matched s + 1,
       info := info s + (if lvl = ''INFO'' then 1 else 0),
       warning := warning s + (if lvl = ''WARNING'' then 1 else 0),
       error := error s + (if lvl = ''ERROR'' then 1 else 0),
       earliest := Some (case earliest s of None \<Rightarrow> ts | Some e \<Rightarrow> if dt_less ts e then ts else e),
       latest := Some (case latest s of None \<Rightarrow> ts | Some l \<Rightarrow> if dt_less l ts then ts else l)\<rparr>"
  by (simp add: bump_level_def update_time_bounds_def split: option.splits)

lemma scan_lines_one:
  "scan_lines s [l] =
     (case parse_line l of
        Inl e \<Rightarrow> Inl e
      | Inr None \<Rightarrow> Inr (s\<lparr>lines_seen := lines_seen s + 1, lines_skipped := lines_skipped s + 1\<rparr>)
      | Inr (Some (ts, lvl)) \<Rightarrow>
          Inr (update_time_bounds (bump_level (s\<lparr>lines_seen := lines_seen s + 1, lines_matched := lines_matched s + 1\<rparr>) lvl) ts))"
  by (simp add: Let_def split: sum.splits option.splits prod.splits)

lemma scan_lines_Cons:
  "scan_lines s (l # ls) = (case scan_lines s [l] of Inl e \<Rightarrow> Inl e | Inr s' \<Rightarrow> scan_lines s' ls)"
  by (simp add: Let_def split: sum.splits option.splits prod.splits)

lemma matched_fields:
  "files_processed (update_time_bounds (bump_level (s\<lparr>lines_seen := a, lines_matched := b\<rparr>) lvl) ts)
     = files_processed s"
  "lines_seen (update_time_bounds (bump_level (s\<lparr>lines_seen := a, lines_matched := b\<rparr>) lvl) ts)
     = a"
  "lines_matched (update_time_bounds (bump_level (s\<lparr>lines_seen := a, lines_matched := b\<rparr>) lvl) ts)
     = b"
  "lines_skipped (update_time_bounds (bump_level (s\<lparr>lines_seen := a, lines_matched := b\<rparr>) lvl) ts)
     = lines_skipped s"
  "info (update_time_bounds (bump_level (s\<lparr>lines_seen := a, lines_matched := b\<rparr>) lvl) ts)
     = info s + (if lvl = ''INFO'' then 1 else 0)"
  "warning (update_time_bounds (bump_level (s\<lparr>lines_seen := a, lines_matched := b\<rparr>) lvl) ts)
     = warning s + (if lvl = ''WARNING'' then 1 else 0)"
  "error (update_time_bounds (bump_level (s\<lparr>lines_seen := a, lines_matched := b\<rparr>) lvl) ts)
     = error s + (if lvl = ''ERROR'' then 1 else 0)"
  "earliest (update_time_bounds (bump_level (s\<lparr>lines_seen := a, lines_matched := b\<rparr>) lvl) ts)
     = Some (case earliest s of None \<Rightarrow> ts | Some e \<Rightarrow> if dt_less ts e then ts else e)"
  "latest (update_time_bounds (bump_level (s\<lparr>lines_seen := a, lines_matched := b\<rparr>) lvl) ts)
     = Some (case latest s of None \<Rightarrow> ts | Some l \<Rightarrow> if dt_less l ts then ts else l)"
  by (simp_all add: bump_level_def update_time_bounds_def Let_def split: option.splits)

lemma earliest_comm:
  "(case Some (case e0 of None \<Rightarrow> ta | Some e \<Rightarrow> if dt_less ta e then ta else e) of
      None \<Rightarrow> tb | Some e \<Rightarrow> if dt_less tb e then tb else e)
   = (case Some (case e0 of None \<Rightarrow> tb | Some e \<Rightarrow> if dt_less tb e then tb else e) of
      None \<Rightarrow> ta | Some e \<Rightarrow> if dt_less ta e then ta else e)"
proof (cases e0)
  case None
  show ?thesis unfolding None option.case by (rule first_lower_comm)
next
  case (Some e)
  show ?thesis unfolding Some option.case by (rule lower_comm)
qed

lemma latest_comm:
  "(case Some (case l0 of None \<Rightarrow> ta | Some l \<Rightarrow> if dt_less l ta then ta else l) of
      None \<Rightarrow> tb | Some l \<Rightarrow> if dt_less l tb then tb else l)
   = (case Some (case l0 of None \<Rightarrow> tb | Some l \<Rightarrow> if dt_less l tb then tb else l) of
      None \<Rightarrow> ta | Some l \<Rightarrow> if dt_less l ta then ta else l)"
proof (cases l0)
  case None
  show ?thesis unfolding None option.case by (rule first_upper_comm)
next
  case (Some l)
  show ?thesis unfolding Some option.case by (rule upper_comm)
qed

lemma matched_comm:
  "update_time_bounds (bump_level ((update_time_bounds (bump_level (s\<lparr>lines_seen := lines_seen s + 1, lines_matched := lines_matched s + 1\<rparr>) la) ta)\<lparr>lines_seen := lines_seen (update_time_bounds (bump_level (s\<lparr>lines_seen := lines_seen s + 1, lines_matched := lines_matched s + 1\<rparr>) la) ta) + 1, lines_matched := lines_matched (update_time_bounds (bump_level (s\<lparr>lines_seen := lines_seen s + 1, lines_matched := lines_matched s + 1\<rparr>) la) ta) + 1\<rparr>) lb) tb
   = update_time_bounds (bump_level ((update_time_bounds (bump_level (s\<lparr>lines_seen := lines_seen s + 1, lines_matched := lines_matched s + 1\<rparr>) lb) tb)\<lparr>lines_seen := lines_seen (update_time_bounds (bump_level (s\<lparr>lines_seen := lines_seen s + 1, lines_matched := lines_matched s + 1\<rparr>) lb) tb) + 1, lines_matched := lines_matched (update_time_bounds (bump_level (s\<lparr>lines_seen := lines_seen s + 1, lines_matched := lines_matched s + 1\<rparr>) lb) tb) + 1\<rparr>) la) ta"
  by (rule summary.equality; unfold matched_fields;
      (rule refl
       | (rule arg_cong [where f = Some], (rule earliest_comm | rule latest_comm)) | simp))

lemma skip_matched_comm:
  "update_time_bounds (bump_level ((s\<lparr>lines_seen := lines_seen s + 1, lines_skipped := lines_skipped s + 1\<rparr>)
       \<lparr>lines_seen := lines_seen (s\<lparr>lines_seen := lines_seen s + 1, lines_skipped := lines_skipped s + 1\<rparr>) + 1,
        lines_matched := lines_matched (s\<lparr>lines_seen := lines_seen s + 1, lines_skipped := lines_skipped s + 1\<rparr>) + 1\<rparr>) lvl) ts
   = (update_time_bounds (bump_level (s\<lparr>lines_seen := lines_seen s + 1, lines_matched := lines_matched s + 1\<rparr>) lvl) ts)
       \<lparr>lines_seen := lines_seen (update_time_bounds (bump_level (s\<lparr>lines_seen := lines_seen s + 1, lines_matched := lines_matched s + 1\<rparr>) lvl) ts) + 1,
        lines_skipped := lines_skipped (update_time_bounds (bump_level (s\<lparr>lines_seen := lines_seen s + 1, lines_matched := lines_matched s + 1\<rparr>) lvl) ts) + 1\<rparr>"
  unfolding matched_eq by simp


lemma scan_step_comm:
  "(case scan_lines s [a] of Inl e \<Rightarrow> Inl e | Inr s' \<Rightarrow> scan_lines s' [b])
   = (case scan_lines s [b] of Inl e \<Rightarrow> Inl e | Inr s' \<Rightarrow> scan_lines s' [a])"
proof (cases "parse_line a")
  case (Inl e)
  then have a: "parse_line a = Inl ValueError" using parse_line_error by blast
  then have l: "scan_lines s [a] = Inl ValueError" for s by (simp add: scan_lines_one)
  show ?thesis
  proof (cases "scan_lines s [b]")
    case (Inl e')
    then show ?thesis using l scan_lines_error by fastforce
  next
    case (Inr s')
    then show ?thesis using l by simp
  qed
next
  case ra: (Inr ra)
  show ?thesis
  proof (cases "parse_line b")
    case (Inl e)
    then have b: "parse_line b = Inl ValueError" using parse_line_error by blast
    then have l: "scan_lines s [b] = Inl ValueError" for s by (simp add: scan_lines_one)
    show ?thesis
    proof (cases "scan_lines s [a]")
      case (Inl e')
      then show ?thesis using l scan_lines_error by fastforce
    next
      case (Inr s')
      then show ?thesis using l by simp
    qed
  next
    case rb: (Inr rb)
    show ?thesis
    proof (cases ra)
      case None
      show ?thesis
      proof (cases rb)
        case nb: None
        show ?thesis using ra rb None nb by (simp add: scan_lines_one)
      next
        case (Some tb)
        obtain t l where "tb = (t, l)" by (cases tb)
        then show ?thesis
          using ra rb None Some by (simp only: scan_lines_one sum.case option.case prod.case skip_matched_comm)
      qed
    next
      case sa: (Some ta)
      obtain t l where ta: "ta = (t, l)" by (cases ta)
      show ?thesis
      proof (cases rb)
        case None
        show ?thesis
          using ra rb sa ta None by (simp only: scan_lines_one sum.case option.case prod.case skip_matched_comm)
      next
        case (Some tb)
        obtain t' l' where "tb = (t', l')" by (cases tb)
        then show ?thesis
          using ra rb sa ta Some
          by (simp only: scan_lines_one sum.case option.case prod.case) (simp only: matched_comm)
      qed
    qed
  qed
qed

lemma fold_scan_error:
  "fold (\<lambda>l r. case r of Inl e \<Rightarrow> Inl e | Inr s' \<Rightarrow> scan_lines s' [l]) ls (Inl e) = Inl e"
  by (induction ls) simp_all

lemma scan_lines_fold:
  "scan_lines s ls = fold (\<lambda>l r. case r of Inl e \<Rightarrow> Inl e | Inr s' \<Rightarrow> scan_lines s' [l]) ls (Inr s)"
proof (induction ls arbitrary: s)
  case Nil
  show ?case by simp
next
  case (Cons l ls)
  show ?case
  proof (cases "scan_lines s [l]")
    case (Inl e)
    then show ?thesis by (simp only: scan_lines_Cons [of s l ls] fold_simps sum.case fold_scan_error)
  next
    case (Inr s')
    then show ?thesis by (simp only: scan_lines_Cons [of s l ls] fold_simps sum.case Cons.IH)
  qed
qed

lemma scan_lines_mset:
  assumes "mset ls = mset ls'"
  shows "scan_lines s ls = scan_lines s ls'"
proof -
  let ?step = "\<lambda>l r. case r of Inl e \<Rightarrow> Inl e | Inr s' \<Rightarrow> scan_lines s' [l]"
  have comm: "?step x \<circ> ?step y = ?step y \<circ> ?step x" for x y
  proof
    fix r show "(?step x \<circ> ?step y) r = (?step y \<circ> ?step x) r"
    proof (cases r)
      case (Inl e)
      then show ?thesis by simp
    next
      case (Inr s0)
      then show ?thesis using scan_step_comm [where s = s0 and a = y and b = x] by simp
    qed
  qed
  have "fold ?step ls = fold ?step ls'"
    by (rule fold_multiset_equiv) (rule comm, rule assms)
  then show ?thesis by (simp only: scan_lines_fold [of s ls] scan_lines_fold [of s ls'])
qed

lemma rstrip_nl_idem: "rstrip_nl (rstrip_nl l) = rstrip_nl l"
  by (simp add: rstrip_nl_def)

lemma parse_line_rstrip: "parse_line (rstrip_nl l) = parse_line l"
  by (simp add: parse_line_def rstrip_nl_idem)

lemma scan_lines_rstrip: "scan_lines s (map rstrip_nl ls) = scan_lines s ls"
proof (induction ls arbitrary: s)
  case Nil
  show ?case by simp
next
  case (Cons l ls)
  have one: "scan_lines s [rstrip_nl l] = scan_lines s [l]"
    unfolding scan_lines_one parse_line_rstrip by (rule refl)
  show ?case
    by (simp only: list.map scan_lines_Cons [of s "rstrip_nl l" "map rstrip_nl ls"]
          scan_lines_Cons [of s l ls] one Cons.IH)
qed

lemma scan_lines_stripped_mset:
  assumes "mset (map rstrip_nl ls') = mset (map rstrip_nl ls)"
  shows "scan_lines s ls' = scan_lines s ls"
proof -
  have "scan_lines s (map rstrip_nl ls') = scan_lines s (map rstrip_nl ls)"
    by (rule scan_lines_mset [OF assms])
  then show ?thesis by (simp only: scan_lines_rstrip)
qed

lemma update_file_queries:
  assumes "fs p = Some (RegularFile x)"
  shows "exists (fs(p \<mapsto> RegularFile y)) = exists fs"
    "is_dir (fs(p \<mapsto> RegularFile y)) = is_dir fs"
    "is_file (fs(p \<mapsto> RegularFile y)) = is_file fs"
    "iterdir (fs(p \<mapsto> RegularFile y)) = iterdir fs"
  using assms by (auto simp: exists_def is_dir_def is_file_def iterdir_def fun_eq_iff)

lemma update_file_iter_log_files:
  "fs p = Some (RegularFile x) \<Longrightarrow>
     iter_log_files (fs(p \<mapsto> RegularFile y)) directory = iter_log_files fs directory"
  by (simp add: iter_log_files_def update_file_queries)

lemma update_file_open_text:
  "open_text (fs(p \<mapsto> RegularFile y)) q = (if q = p then y else open_text fs q)"
  by (simp add: open_text_def)

lemma update_file_scan_files:
  assumes "fs p = Some (RegularFile (Inr content))"
    "mset (map rstrip_nl (text_lines content')) = mset (map rstrip_nl (text_lines content))"
  shows "scan_files (fs(p \<mapsto> RegularFile (Inr content'))) s ps = scan_files fs s ps"
proof (induction ps arbitrary: s)
  case Nil
  show ?case by simp
next
  case (Cons q ps)
  show ?case
  proof (cases "q = p")
    case True
    have o: "open_text fs p = Inr content" using assms(1) by (simp add: open_text_def)
    have "scan_lines (s\<lparr>files_processed := files_processed s + 1\<rparr>) (text_lines content')
          = scan_lines (s\<lparr>files_processed := files_processed s + 1\<rparr>) (text_lines content)"
      by (rule scan_lines_stripped_mset [OF assms(2)])
    then show ?thesis
      unfolding scan_files_Cons update_file_open_text using True o
      by (simp add: Cons.IH split: sum.splits)
  next
    case False
    then show ?thesis
      unfolding scan_files_Cons update_file_open_text
      by (simp add: Cons.IH split: sum.splits)
  qed
qed

text \<open>
  C7. Replacing the text of one file by a text with the same lines in another order, each
  line as many times as before, does not change the summary the scan returns: every
  count and both bounds are the same. A line is what the file's iterator yields, without
  its line feed, so the last line may lack one before and after the rearrangement.
\<close>

theorem summarize_directory_line_order:
  "fs p = Some (RegularFile (Inr content)) \<Longrightarrow>
   mset (map rstrip_nl (text_lines content')) = mset (map rstrip_nl (text_lines content)) \<Longrightarrow>
   summarize_directory fs directory = Inr s \<Longrightarrow>
   summarize_directory (fs(p \<mapsto> RegularFile (Inr content'))) directory = Inr s"
proof -
  assume a: "fs p = Some (RegularFile (Inr content))"
    and m: "mset (map rstrip_nl (text_lines content')) = mset (map rstrip_nl (text_lines content))"
    and r: "summarize_directory fs directory = Inr s"
  have "summarize_directory_io (fs(p \<mapsto> RegularFile (Inr content'))) directory
        = summarize_directory_io fs directory"
    by (simp only: summarize_directory_io_def
          update_file_queries [of fs p "Inr content" "Inr content'", OF a]
          update_file_iter_log_files [of fs p "Inr content" "Inr content'", OF a]
          update_file_scan_files [of fs p content content', OF a m])
  then show ?thesis using r by (simp only: summarize_directory_def)
qed

theorem summarize_directory_line_order_witness:
  "example_fs [''logs'', ''a.log'']
     = Some (RegularFile (Inr (''2026-02-06 13:45:01 [INFO] Something happened'' @ [newline]
                               @ ''Traceback (most recent call last):'' @ [newline]
                               @ ''2026-02-07 08:00:00 [WARNING] disk almost full'')))
   \<and> mset (map rstrip_nl (text_lines
             (''2026-02-07 08:00:00 [WARNING] disk almost full'' @ [newline]
              @ ''2026-02-06 13:45:01 [INFO] Something happened'' @ [newline]
              @ ''Traceback (most recent call last):'')))
       = mset (map rstrip_nl (text_lines
             (''2026-02-06 13:45:01 [INFO] Something happened'' @ [newline]
              @ ''Traceback (most recent call last):'' @ [newline]
              @ ''2026-02-07 08:00:00 [WARNING] disk almost full'')))
   \<and> summarize_directory example_fs [''logs''] = Inr example_summary
   \<and> summarize_directory
         (example_fs([''logs'', ''a.log''] \<mapsto>
            RegularFile (Inr (''2026-02-07 08:00:00 [WARNING] disk almost full'' @ [newline]
                              @ ''2026-02-06 13:45:01 [INFO] Something happened'' @ [newline]
                              @ ''Traceback (most recent call last):''))))
         [''logs'']
       = Inr example_summary"
proof -
  have f: "example_fs [''logs'', ''a.log'']
     = Some (RegularFile (Inr (''2026-02-06 13:45:01 [INFO] Something happened'' @ [newline]
                               @ ''Traceback (most recent call last):'' @ [newline]
                               @ ''2026-02-07 08:00:00 [WARNING] disk almost full'')))"
    by (simp add: example_fs_def)
  have l: "map rstrip_nl (text_lines
             (''2026-02-06 13:45:01 [INFO] Something happened'' @ [newline]
              @ ''Traceback (most recent call last):'' @ [newline]
              @ ''2026-02-07 08:00:00 [WARNING] disk almost full''))
        = [''2026-02-06 13:45:01 [INFO] Something happened'',
           ''Traceback (most recent call last):'',
           ''2026-02-07 08:00:00 [WARNING] disk almost full'']"
    by code_simp
  have l': "map rstrip_nl (text_lines
             (''2026-02-07 08:00:00 [WARNING] disk almost full'' @ [newline]
              @ ''2026-02-06 13:45:01 [INFO] Something happened'' @ [newline]
              @ ''Traceback (most recent call last):''))
        = [''2026-02-07 08:00:00 [WARNING] disk almost full'',
           ''2026-02-06 13:45:01 [INFO] Something happened'',
           ''Traceback (most recent call last):'']"
    by code_simp
  have m: "mset (map rstrip_nl (text_lines
             (''2026-02-07 08:00:00 [WARNING] disk almost full'' @ [newline]
              @ ''2026-02-06 13:45:01 [INFO] Something happened'' @ [newline]
              @ ''Traceback (most recent call last):'')))
       = mset (map rstrip_nl (text_lines
             (''2026-02-06 13:45:01 [INFO] Something happened'' @ [newline]
              @ ''Traceback (most recent call last):'' @ [newline]
              @ ''2026-02-07 08:00:00 [WARNING] disk almost full'')))"
    unfolding l l' by (simp add: add.commute)
  have h: "summarize_directory example_fs [''logs''] = Inr example_summary"
    by (simp add: summarize_directory_def example_scan)
  from summarize_directory_line_order [of example_fs "[''logs'', ''a.log'']", OF f m h] f m h
  show ?thesis by (simp only: simp_thms)
qed

section \<open>The scenario of a single line\<close>

lemma filter_unique:
  "distinct xs \<Longrightarrow> x \<in> set xs \<Longrightarrow> P x \<Longrightarrow> \<forall>y\<in>set xs. y \<noteq> x \<longrightarrow> \<not> P y \<Longrightarrow> filter P xs = [x]"
proof (induction xs)
  case Nil
  then show ?case by simp
next
  case (Cons a xs)
  show ?case
  proof (cases "a = x")
    case True
    then have "\<forall>y\<in>set xs. \<not> P y" using Cons.prems by auto
    then have "filter P xs = []" by (simp add: filter_empty_conv)
    then show ?thesis using True Cons.prems(3) by simp
  next
    case False
    then have "\<not> P a" "x \<in> set xs" using Cons.prems by auto
    then show ?thesis using Cons by simp
  qed
qed

lemma log_name_iff:
  "(\<exists>x. x \<noteq> [] \<and> m = x @ ''.log'') = (4 < length m \<and> drop (length m - 4) m = ''.log'')"
proof
  assume "\<exists>x. x \<noteq> [] \<and> m = x @ ''.log''"
  then obtain x where "x \<noteq> []" "m = x @ ''.log''" by blast
  then show "4 < length m \<and> drop (length m - 4) m = ''.log''"
    by (simp add: length_greater_0_conv)
next
  assume a: "4 < length m \<and> drop (length m - 4) m = ''.log''"
  then have "m = take (length m - 4) m @ ''.log''"
    using append_take_drop_id [of "length m - 4" m] by simp
  moreover have "take (length m - 4) m \<noteq> []" using a by auto
  ultimately show "\<exists>x. x \<noteq> [] \<and> m = x @ ''.log''" by blast
qed

lemma iter_log_files_single:
  assumes "fs directory = Some (Directory names)" "distinct names" "n \<in> set names"
    "is_file fs (directory @ [n])" "\<exists>x. x \<noteq> [] \<and> n = x @ ''.log''"
    "\<forall>m\<in>set names. m \<noteq> n \<longrightarrow>
       \<not> (is_file fs (directory @ [m]) \<and> (\<exists>x. x \<noteq> [] \<and> m = x @ ''.log''))"
  shows "iter_log_files fs directory = [directory @ [n]]"
proof -
  let ?P = "\<lambda>m. is_file fs (directory @ [m]) \<and> suffix (directory @ [m]) = ''.log''"
  have "filter ?P names = [n]"
    using assms(2-6) by (intro filter_unique) (simp_all add: suffix_log_iff name_child)
  then have "filter (\<lambda>p. is_file fs p \<and> suffix p = ''.log'') (map (\<lambda>m. directory @ [m]) names)
             = [directory @ [n]]"
    by (simp add: filter_map comp_def)
  then show ?thesis using assms(1) by (simp add: iter_log_files_def iterdir_def)
qed

lemma scenario_parse:
  "parse_line ''2026-02-06 13:45:01 [INFO] Something happened''
     = Inr (Some (\<lparr>year = 2026, month = 2, day = 6, hour = 13, minute = 45, second = 1\<rparr>, ''INFO''))"
  "parse_line (''2026-02-06 13:45:01 [INFO] Something happened'' @ [newline])
     = Inr (Some (\<lparr>year = 2026, month = 2, day = 6, hour = 13, minute = 45, second = 1\<rparr>, ''INFO''))"
  by code_simp+

lemma scenario_lines:
  "text_lines ''2026-02-06 13:45:01 [INFO] Something happened''
     = [''2026-02-06 13:45:01 [INFO] Something happened'']"
  "text_lines (''2026-02-06 13:45:01 [INFO] Something happened'' @ [newline])
     = [''2026-02-06 13:45:01 [INFO] Something happened'' @ [newline]]"
  by code_simp+

text \<open>
  C6, as amended. Take a directory whose listing has one entry that is a regular file
  with a name of at least one character followed by \<open>.log\<close>, among any other entries
  that are not such files. If that file holds the single line
  \<open>2026-02-06 13:45:01 [INFO] Something happened\<close>, with or without its line feed, the
  scan gives one file, one line seen, one matched, none skipped, one \<open>INFO\<close>, and both
  bounds at 2026-02-06 13:45:01.
\<close>

theorem single_line_scenario:
  "fs directory = Some (Directory names) \<Longrightarrow> distinct names \<Longrightarrow> n \<in> set names \<Longrightarrow>
   \<exists>x. x \<noteq> [] \<and> n = x @ ''.log'' \<Longrightarrow>
   fs (directory @ [n]) = Some (RegularFile (Inr content)) \<Longrightarrow>
   content = ''2026-02-06 13:45:01 [INFO] Something happened''
     \<or> content = ''2026-02-06 13:45:01 [INFO] Something happened'' @ [newline] \<Longrightarrow>
   \<forall>m\<in>set names. m \<noteq> n \<longrightarrow>
     \<not> (is_file fs (directory @ [m]) \<and> (\<exists>x. x \<noteq> [] \<and> m = x @ ''.log'')) \<Longrightarrow>
   summarize_directory fs directory =
     Inr \<lparr>files_processed = 1, lines_seen = 1, lines_matched = 1, lines_skipped = 0,
          info = 1, warning = 0, error = 0,
          earliest = Some \<lparr>year = 2026, month = 2, day = 6, hour = 13, minute = 45, second = 1\<rparr>,
          latest = Some \<lparr>year = 2026, month = 2, day = 6, hour = 13, minute = 45, second = 1\<rparr>\<rparr>"
proof -
  assume d: "fs directory = Some (Directory names)" and dn: "distinct names"
    and n: "n \<in> set names" and ln: "\<exists>x. x \<noteq> [] \<and> n = x @ ''.log''"
    and f: "fs (directory @ [n]) = Some (RegularFile (Inr content))"
    and c: "content = ''2026-02-06 13:45:01 [INFO] Something happened''
     \<or> content = ''2026-02-06 13:45:01 [INFO] Something happened'' @ [newline]"
    and o: "\<forall>m\<in>set names. m \<noteq> n \<longrightarrow>
     \<not> (is_file fs (directory @ [m]) \<and> (\<exists>x. x \<noteq> [] \<and> m = x @ ''.log''))"
  have e: "exists fs directory" "is_dir fs directory"
    using d by (simp_all add: exists_def is_dir_def)
  have "is_file fs (directory @ [n])" using f by (simp add: is_file_def)
  from iter_log_files_single [OF d dn n this ln o]
  have i: "iter_log_files fs directory = [directory @ [n]]" .
  have ot: "open_text fs (directory @ [n]) = Inr content"
    using f by (simp add: open_text_def)
  from c obtain line where tl: "text_lines content = [line]"
    and pl: "parse_line line
     = Inr (Some (\<lparr>year = 2026, month = 2, day = 6, hour = 13, minute = 45, second = 1\<rparr>, ''INFO''))"
    using scenario_lines scenario_parse by auto
  have sl: "scan_lines (Summary\<lparr>files_processed := files_processed Summary + 1\<rparr>) [line] =
     Inr \<lparr>files_processed = 1, lines_seen = 1, lines_matched = 1, lines_skipped = 0,
          info = 1, warning = 0, error = 0,
          earliest = Some \<lparr>year = 2026, month = 2, day = 6, hour = 13, minute = 45, second = 1\<rparr>,
          latest = Some \<lparr>year = 2026, month = 2, day = 6, hour = 13, minute = 45, second = 1\<rparr>\<rparr>"
    unfolding scan_lines_one pl by (simp add: Summary_def bump_level_def update_time_bounds_def)
  have "scan_files fs Summary [directory @ [n]] =
     (case scan_lines (Summary\<lparr>files_processed := files_processed Summary + 1\<rparr>) [line] of
        Inl e \<Rightarrow> ([directory @ [n]], Inl e)
      | Inr s2 \<Rightarrow> (case scan_files fs s2 [] of (opened, r) \<Rightarrow> ((directory @ [n]) # opened, r)))"
    by (simp only: scan_files_Cons ot tl sum.case)
  then have "scan_files fs Summary [directory @ [n]] = ([directory @ [n]],
     Inr \<lparr>files_processed = 1, lines_seen = 1, lines_matched = 1, lines_skipped = 0,
          info = 1, warning = 0, error = 0,
          earliest = Some \<lparr>year = 2026, month = 2, day = 6, hour = 13, minute = 45, second = 1\<rparr>,
          latest = Some \<lparr>year = 2026, month = 2, day = 6, hour = 13, minute = 45, second = 1\<rparr>\<rparr>)"
    by (simp only: sl sum.case scan_files.simps prod.case)
  then show ?thesis
    using e i by (simp add: summarize_directory_def summarize_directory_io_def)
qed

theorem single_line_scenario_witness:
  "scenario_fs [''logs''] = Some (Directory [''notes.txt'', ''app.log'', ''.log'', ''archive''])
   \<and> distinct [''notes.txt'', ''app.log'', ''.log'', ''archive'']
   \<and> ''app.log'' \<in> set [''notes.txt'', ''app.log'', ''.log'', ''archive'']
   \<and> (\<exists>x. x \<noteq> [] \<and> ''app.log'' = x @ ''.log'')
   \<and> scenario_fs ([''logs''] @ [''app.log''])
       = Some (RegularFile (Inr ''2026-02-06 13:45:01 [INFO] Something happened''))
   \<and> \<not> (\<exists>x. x \<noteq> [] \<and> ''notes.txt'' = x @ ''.log'')
   \<and> \<not> (\<exists>x. x \<noteq> [] \<and> ''.log'' = x @ ''.log'')
   \<and> \<not> is_file scenario_fs ([''logs''] @ [''archive''])
   \<and> summarize_directory scenario_fs [''logs''] =
       Inr \<lparr>files_processed = 1, lines_seen = 1, lines_matched = 1, lines_skipped = 0,
            info = 1, warning = 0, error = 0,
            earliest = Some \<lparr>year = 2026, month = 2, day = 6, hour = 13, minute = 45, second = 1\<rparr>,
            latest = Some \<lparr>year = 2026, month = 2, day = 6, hour = 13, minute = 45, second = 1\<rparr>\<rparr>"
proof -
  have d: "scenario_fs [''logs''] = Some (Directory [''notes.txt'', ''app.log'', ''.log'', ''archive''])"
    by (simp add: scenario_fs_def)
  have dn: "distinct [''notes.txt'', ''app.log'', ''.log'', ''archive'']" by simp
  have n: "''app.log'' \<in> set [''notes.txt'', ''app.log'', ''.log'', ''archive'']" by simp
  have ln: "\<exists>x. x \<noteq> [] \<and> ''app.log'' = x @ ''.log''"
    unfolding log_name_iff by simp
  have f: "scenario_fs ([''logs''] @ [''app.log''])
       = Some (RegularFile (Inr ''2026-02-06 13:45:01 [INFO] Something happened''))"
    by (simp add: scenario_fs_def)
  have o: "\<forall>m\<in>set [''notes.txt'', ''app.log'', ''.log'', ''archive'']. m \<noteq> ''app.log'' \<longrightarrow>
         \<not> (is_file scenario_fs ([''logs''] @ [m]) \<and> (\<exists>x. x \<noteq> [] \<and> m = x @ ''.log''))"
    unfolding log_name_iff by (simp add: is_file_def scenario_fs_def)
  have o1: "\<not> (\<exists>x. x \<noteq> [] \<and> ''notes.txt'' = x @ ''.log'')"
    and o2: "\<not> (\<exists>x. x \<noteq> [] \<and> ''.log'' = x @ ''.log'')"
    unfolding log_name_iff by simp_all
  have o3: "\<not> is_file scenario_fs ([''logs''] @ [''archive''])"
    by (simp add: is_file_def scenario_fs_def)
  have r: "summarize_directory scenario_fs [''logs''] =
       Inr \<lparr>files_processed = 1, lines_seen = 1, lines_matched = 1, lines_skipped = 0,
            info = 1, warning = 0, error = 0,
            earliest = Some \<lparr>year = 2026, month = 2, day = 6, hour = 13, minute = 45, second = 1\<rparr>,
            latest = Some \<lparr>year = 2026, month = 2, day = 6, hour = 13, minute = 45, second = 1\<rparr>\<rparr>"
    using single_line_scenario [OF d dn n ln f _ o] by blast
  from d dn n ln f o1 o2 o3 r show ?thesis by (intro conjI)
qed

text \<open>
  The claim as stated fails when the one file with that line is named exactly \<open>.log\<close>:
  the enumerator does not return it and every count stays 0.
\<close>

theorem single_line_scenario_dot_log_counterexample:
  "dot_fs [''logs''] = Some (Directory [''.log''])
   \<and> dot_fs [''logs'', ''.log'']
       = Some (RegularFile (Inr ''2026-02-06 13:45:01 [INFO] Something happened''))
   \<and> summarize_directory dot_fs [''logs''] =
       Inr \<lparr>files_processed = 0, lines_seen = 0, lines_matched = 0, lines_skipped = 0,
            info = 0, warning = 0, error = 0, earliest = None, latest = None\<rparr>"
  by code_simp

end
